theory Spec2Isabelle
  imports Complex_Main "HOL-Library.Multiset" "HOL-Library.AList"
begin

section \<open>Data model of \<^verbatim>\<open>src/main.ts\<close>\<close>

text \<open>
  The interfaces \<^verbatim>\<open>Cell\<close>, \<^verbatim>\<open>latlng\<close> and \<^verbatim>\<open>Coin\<close> are plain data. Cell indices and
  serials are \<^verbatim>\<open>number\<close>s that only ever hold integers (results of \<^verbatim>\<open>Math.floor\<close> and of
  a loop counter), so they are \<open>int\<close>; latitudes, longitudes, distances and the values of
  \<^verbatim>\<open>luck\<close> are \<open>real\<close>. The division in \<^verbatim>\<open>getCellFromPoint\<close> is rounded as IEEE double
  arithmetic rounds it (see below); the other operations on these numbers are exact. The
  fields \<^verbatim>\<open>i\<close> and \<^verbatim>\<open>j\<close> are called \<open>cell_i\<close> and \<open>cell_j\<close>.
\<close>

record Cell =
  cell_i :: int
  cell_j :: int

record latlng =
  lat :: real
  lng :: real

text \<open>
  A \<^verbatim>\<open>Coin\<close> object is never written after its creation and its \<^verbatim>\<open>cell\<close> is only read
  through \<^verbatim>\<open>.i\<close> and \<^verbatim>\<open>.j\<close>, so the record holds the cell by value. The identity of the
  coin object itself matters (\<^verbatim>\<open>indexOf\<close> compares references): coins live in a store and
  arrays of coins are lists of references.
\<close>

record Coin =
  cell :: Cell
  serial :: int

type_synonym ref = nat

text \<open>
  A \<^verbatim>\<open>Cache\<close> object: its cell, its array of coin references, and the string its
  \<^verbatim>\<open>toString\<close> closure returns (\<^verbatim>\<open>[i, j].toString()\<close>, or \<^verbatim>\<open>"inventory"\<close> once overridden).
  No two cache objects share a \<^verbatim>\<open>coins\<close> array, so the array is a field of the object.
\<close>

record Cache =
  cache_cell :: Cell
  coins :: "ref list"
  toString :: string

text \<open>
  The module-level state: the store of coin objects and of cache objects (total
  functions with an allocation counter each), the \<^verbatim>\<open>momentos\<close> map in insertion order,
  \<^verbatim>\<open>locHistory\<close> and \<^verbatim>\<open>origin\<close>.
\<close>

record State =
  coin_objs :: "ref \<Rightarrow> Coin"
  coin_next :: ref
  cache_objs :: "ref \<Rightarrow> Cache"
  cache_next :: ref
  momentos :: "(string \<times> string) list"
  locHistory :: "latlng list list"
  origin :: latlng

datatype error = SyntaxError | TypeError

section \<open>Double arithmetic\<close>

text \<open>
  A \<^verbatim>\<open>number\<close> is an IEEE 754 double. A decimal literal, a product and a quotient are the
  exact value rounded to the nearest double, ties to the even significand: the value is
  scaled by the unit in the last place of its binade (53 significant bits, exponent at
  least \<open>-1022\<close>, below which doubles are subnormal), rounded to an integer and scaled back.
  Values from \<open>2\<^sup>1\<^sup>0\<^sup>2\<^sup>4\<close> on, which JavaScript rounds to \<^verbatim>\<open>Infinity\<close>, and \<^verbatim>\<open>NaN\<close> are not
  modelled.
\<close>

definition round_half_even :: "real \<Rightarrow> int" where
  "round_half_even q =
     (let n = \<lfloor>q\<rfloor>; r = q - of_int n in
      if r < 1 / 2 then n else if 1 / 2 < r then n + 1 else if even n then n else n + 1)"

text \<open>
  The exponent \<open>e\<close> with \<open>2\<^sup>e \<le> x < 2\<^sup>e\<^sup>+\<^sup>1\<close> of a positive \<open>x\<close>, found by halving or doubling; the
  first argument bounds the search, beyond the range of doubles.
\<close>

fun binary_exponent :: "nat \<Rightarrow> real \<Rightarrow> int \<Rightarrow> int" where
  "binary_exponent 0 x e = e"
| "binary_exponent (Suc n) x e =
     (if 2 \<le> x then binary_exponent n (x / 2) (e + 1)
      else if x < 1 then binary_exponent n (2 * x) (e - 1)
      else e)"

definition pow2 :: "int \<Rightarrow> real" where
  "pow2 e = (if 0 \<le> e then 2 ^ nat e else 1 / 2 ^ nat (- e))"

definition round_double :: "real \<Rightarrow> real" where
  "round_double x =
     (if x = 0 then 0
      else
        (let e = max (binary_exponent 2200 \<bar>x\<bar> 0) (- 1022);
             ulp = pow2 (e - 52)
         in of_int (round_half_even (x / ulp)) * ulp))"

definition double_mul :: "real \<Rightarrow> real \<Rightarrow> real" where
  "double_mul a b = round_double (a * b)"

definition double_div :: "real \<Rightarrow> real \<Rightarrow> real" where
  "double_div a b = round_double (a / b)"

section \<open>Constants\<close>

text \<open>\<^verbatim>\<open>TILE_DEGREES = 1e-4\<close>: the double nearest to \<open>10\<^sup>-\<^sup>4\<close>.\<close>

definition TILE_DEGREES :: real where
  "TILE_DEGREES = round_double (1 / 10000)"

definition NEIGHBORHOOD_SIZE :: int where
  "NEIGHBORHOOD_SIZE = 8"

definition CACHE_SPAWN_PROBABILITY :: real where
  "CACHE_SPAWN_PROBABILITY = 1 / 10"

definition HISTORY_UPDATE_DISTANCE :: real where
  "HISTORY_UPDATE_DISTANCE = 20"

definition OAKES_CLASSROOM :: latlng where
  "OAKES_CLASSROOM = \<lparr>lat = 36.98949379578401, lng = - 122.06277128548504\<rparr>"

section \<open>Numbers and JSON text\<close>

text \<open>
  \<^verbatim>\<open>Number.prototype.toString\<close> on an integer: decimal digits, a leading \<^verbatim>\<open>-\<close> when
  negative (the exponent form JavaScript switches to from \<open>10\<^sup>2\<^sup>1\<close> on is not modelled).
\<close>

definition digit_of :: "nat \<Rightarrow> char" where
  "digit_of d = char_of (48 + d)"

definition digit_val :: "char \<Rightarrow> nat" where
  "digit_val c = of_char c - 48"

definition is_digit :: "char \<Rightarrow> bool" where
  "is_digit c = (48 \<le> (of_char c :: nat) \<and> (of_char c :: nat) \<le> 57)"

fun show_nat :: "nat \<Rightarrow> string" where
  "show_nat n = (if n < 10 then [digit_of n] else show_nat (n div 10) @ [digit_of (n mod 10)])"

declare show_nat.simps [simp del]

definition show_int :: "int \<Rightarrow> string" where
  "show_int n = (if n < 0 then CHR ''-'' # show_nat (nat (- n)) else show_nat (nat n))"

text \<open>\<^verbatim>\<open>[i, j].toString()\<close>: the two numbers joined by a comma.\<close>

definition coords_toString :: "int \<Rightarrow> int \<Rightarrow> string" where
  "coords_toString i j = show_int i @ '','' @ show_int j"

text \<open>
  \<^verbatim>\<open>JSON.stringify\<close> on a \<^verbatim>\<open>Coin[]\<close>: no white space, properties in creation order
  (\<^verbatim>\<open>cell\<close> before \<^verbatim>\<open>serial\<close>, \<^verbatim>\<open>i\<close> before \<^verbatim>\<open>j\<close>).
\<close>

definition quoted :: "string \<Rightarrow> string" where
  "quoted s = CHR 0x22 # s @ [CHR 0x22]"

definition coin_json :: "Coin \<Rightarrow> string" where
  "coin_json c =
     ''{'' @ quoted ''cell'' @ '':{'' @ quoted ''i'' @ '':'' @ show_int (cell_i (cell c)) @
     '','' @ quoted ''j'' @ '':'' @ show_int (cell_j (cell c)) @
     ''},'' @ quoted ''serial'' @ '':'' @ show_int (serial c) @ ''}''"

fun join_commas :: "string list \<Rightarrow> string" where
  "join_commas [] = []"
| "join_commas [x] = x"
| "join_commas (x # y # ys) = x @ '','' @ join_commas (y # ys)"

definition JSON_stringify :: "Coin list \<Rightarrow> string" where
  "JSON_stringify cs = ''['' @ join_commas (map coin_json cs) @ '']''"

text \<open>
  \<^verbatim>\<open>JSON.parse\<close>, followed on the texts \<^verbatim>\<open>JSON.stringify\<close> writes for a \<^verbatim>\<open>Coin[]\<close>: an
  array of objects of that one shape, integers without a leading zero. \<open>None\<close> stands for
  the \<^verbatim>\<open>SyntaxError\<close> of \<^verbatim>\<open>JSON.parse\<close>; a text that is JSON of another shape, which
  JavaScript would accept, is outside the model and is \<open>None\<close> too.
\<close>

definition expect :: "string \<Rightarrow> string \<Rightarrow> string option" where
  "expect p s = (if take (length p) s = p then Some (drop (length p) s) else None)"

definition parse_digits :: "string \<Rightarrow> (nat \<times> string) option" where
  "parse_digits s =
     (let ds = takeWhile is_digit s; rest = dropWhile is_digit s in
      if ds = [] then None
      else if hd ds = CHR ''0'' \<and> 1 < length ds then None
      else Some (foldl (\<lambda>a c. 10 * a + digit_val c) 0 ds, rest))"

definition parse_int :: "string \<Rightarrow> (int \<times> string) option" where
  "parse_int s =
     (case s of
        [] \<Rightarrow> None
      | c # s' \<Rightarrow>
          if c = CHR ''-'' then map_option (\<lambda>(n, r). (- int n, r)) (parse_digits s')
          else map_option (\<lambda>(n, r). (int n, r)) (parse_digits s))"

definition parse_coin :: "string \<Rightarrow> (Coin \<times> string) option" where
  "parse_coin s =
     (case expect (''{'' @ quoted ''cell'' @ '':{'' @ quoted ''i'' @ '':'') s of
        None \<Rightarrow> None
      | Some s1 \<Rightarrow>
     (case parse_int s1 of
        None \<Rightarrow> None
      | Some (i, s2) \<Rightarrow>
     (case expect ('','' @ quoted ''j'' @ '':'') s2 of
        None \<Rightarrow> None
      | Some s3 \<Rightarrow>
     (case parse_int s3 of
        None \<Rightarrow> None
      | Some (j, s4) \<Rightarrow>
     (case expect (''},'' @ quoted ''serial'' @ '':'') s4 of
        None \<Rightarrow> None
      | Some s5 \<Rightarrow>
     (case parse_int s5 of
        None \<Rightarrow> None
      | Some (k, s6) \<Rightarrow>
     (case expect ''}'' s6 of
        None \<Rightarrow> None
      | Some s7 \<Rightarrow> Some (\<lparr>cell = \<lparr>cell_i = i, cell_j = j\<rparr>, serial = k\<rparr>, s7))))))))"

text \<open>The elements after the opening bracket; the first argument bounds the recursion.\<close>

fun parse_elems :: "nat \<Rightarrow> string \<Rightarrow> Coin list option" where
  "parse_elems 0 s = None"
| "parse_elems (Suc n) s =
     (case parse_coin s of
        None \<Rightarrow> None
      | Some (c, r) \<Rightarrow>
          if r = '']'' then Some [c]
          else (case expect '','' r of
                  None \<Rightarrow> None
                | Some r' \<Rightarrow> map_option ((#) c) (parse_elems n r')))"

definition JSON_parse :: "string \<Rightarrow> Coin list option" where
  "JSON_parse s =
     (case expect ''['' s of
        None \<Rightarrow> None
      | Some s1 \<Rightarrow> if s1 = '']'' then Some [] else parse_elems (length s1) s1)"

text \<open>A text at which a run of digits ends: it is empty or starts with another character.\<close>

definition stops :: "string \<Rightarrow> bool" where
  "stops r = (case r of [] \<Rightarrow> True | c # _ \<Rightarrow> \<not> is_digit c)"

section \<open>Caches and mementos\<close>

text \<open>\<^verbatim>\<open>Map.prototype.set\<close>, \<^verbatim>\<open>has\<close> and \<^verbatim>\<open>get\<close> on \<^verbatim>\<open>momentos\<close>.\<close>

definition momentos_set :: "State \<Rightarrow> string \<Rightarrow> string \<Rightarrow> State" where
  "momentos_set s k v = s\<lparr>momentos := AList.update k v (momentos s)\<rparr>"

definition momentos_has :: "State \<Rightarrow> string \<Rightarrow> bool" where
  "momentos_has s k = (k \<in> fst ` set (momentos s))"

definition momentos_get :: "State \<Rightarrow> string \<Rightarrow> string option" where
  "momentos_get s k = map_of (momentos s) k"

definition set_coins :: "State \<Rightarrow> ref \<Rightarrow> ref list \<Rightarrow> State" where
  "set_coins s c rs = s\<lparr>cache_objs := (cache_objs s)(c := (cache_objs s c)\<lparr>coins := rs\<rparr>)\<rparr>"

text \<open>The plain data of the coins a cache holds, in array order.\<close>

definition coin_data :: "State \<Rightarrow> ref \<Rightarrow> Coin list" where
  "coin_data s c = map (coin_objs s) (coins (cache_objs s c))"

text \<open>A new coin object \<^verbatim>\<open>{cell: ..., serial: ...}\<close>.\<close>

definition new_coin :: "State \<Rightarrow> Coin \<Rightarrow> ref \<times> State" where
  "new_coin s c =
     (coin_next s, s\<lparr>coin_objs := (coin_objs s)(coin_next s := c), coin_next := Suc (coin_next s)\<rparr>)"

fun new_coins :: "State \<Rightarrow> Coin list \<Rightarrow> ref list \<times> State" where
  "new_coins s [] = ([], s)"
| "new_coins s (c # cs) =
     (case new_coin s c of (r, s') \<Rightarrow>
        (case new_coins s' cs of (rs, s'') \<Rightarrow> (r # rs, s'')))"

text \<open>\<^verbatim>\<open>toMomento() { return JSON.stringify(this.coins); }\<close>\<close>

definition toMomento :: "State \<Rightarrow> ref \<Rightarrow> string" where
  "toMomento s c = JSON_stringify (coin_data s c)"

text \<open>
  \<^verbatim>\<open>fromMomento(momento) { this.coins = JSON.parse(momento); }\<close>: the parsed array
  consists of new objects.
\<close>

definition fromMomento :: "State \<Rightarrow> ref \<Rightarrow> string \<Rightarrow> error + State" where
  "fromMomento s c momento =
     (case JSON_parse momento of
        None \<Rightarrow> Inl SyntaxError
      | Some cs \<Rightarrow> (case new_coins s cs of (rs, s') \<Rightarrow> Inr (set_coins s' c rs)))"

text \<open>
  \<^verbatim>\<open>createCache(i, j, num_coins)\<close>: a new cache object with an empty array, then the loop
  \<^verbatim>\<open>for (let k = 0; k < num_coins; k++) cache.coins.push({cell: cache.cell, serial: k})\<close>.
\<close>

function createCache_loop :: "State \<Rightarrow> ref \<Rightarrow> int \<Rightarrow> int \<Rightarrow> State" where
  "createCache_loop s c k num_coins =
     (if k < num_coins then
        (case new_coin s \<lparr>cell = cache_cell (cache_objs s c), serial = k\<rparr> of
           (r, s') \<Rightarrow>
             createCache_loop (set_coins s' c (coins (cache_objs s' c) @ [r])) c (k + 1) num_coins)
      else s)"
  by pat_completeness auto
termination
  by (relation "measure (\<lambda>(s, c, k, n). nat (n - k))") auto

declare createCache_loop.simps [simp del]

definition createCache :: "State \<Rightarrow> int \<Rightarrow> int \<Rightarrow> int \<Rightarrow> ref \<times> State" where
  "createCache s i j num_coins =
     (let c = cache_next s;
          s' = s\<lparr>cache_objs := (cache_objs s)
                   (c := \<lparr>cache_cell = \<lparr>cell_i = i, cell_j = j\<rparr>, coins = [],
                          toString = coords_toString i j\<rparr>),
                 cache_next := Suc c\<rparr>
      in (c, createCache_loop s' c 0 num_coins))"

section \<open>Transfer\<close>

text \<open>\<^verbatim>\<open>Array.prototype.indexOf\<close>: the first position holding the reference, or \<open>-1\<close>.\<close>

fun indexOf :: "'a list \<Rightarrow> 'a \<Rightarrow> int" where
  "indexOf [] x = - 1"
| "indexOf (y # ys) x =
     (if y = x then 0 else (let r = indexOf ys x in if r < 0 then - 1 else r + 1))"

text \<open>\<^verbatim>\<open>xs.splice(index, 1)\<close> for an index inside the array.\<close>

definition splice_js :: "'a list \<Rightarrow> nat \<Rightarrow> 'a list" where
  "splice_js xs n = take n xs @ drop (Suc n) xs"

text \<open>
  \<^verbatim>\<open>transfer(a, b, coin)\<close>; \<open>a\<close> and \<open>b\<close> are references to cache objects and may be the
  same one, every statement reads the store the previous one left.
\<close>

definition transfer :: "State \<Rightarrow> ref \<Rightarrow> ref \<Rightarrow> ref \<Rightarrow> State" where
  "transfer s a b coin =
     (let index = indexOf (coins (cache_objs s a)) coin in
      if index < 0 then s
      else
        let s1 = set_coins s a (splice_js (coins (cache_objs s a)) (nat index));
            s2 = set_coins s1 b (coins (cache_objs s1 b) @ [coin]);
            s3 = momentos_set s2 (toString (cache_objs s2 a)) (toMomento s2 a);
            s4 = momentos_set s3 (toString (cache_objs s3 b)) (toMomento s3 b)
        in s4)"

section \<open>Board\<close>

text \<open>
  The object \<^verbatim>\<open>createBoard\<close> returns. \<^verbatim>\<open>known_cells\<close> maps a key to a \<^verbatim>\<open>Cell\<close> object;
  \<open>cell_objs\<close> and \<open>cell_next\<close> are the store of the cell objects the board has created,
  so that two results of \<^verbatim>\<open>getCell\<close> can be compared as references.
\<close>

record Board =
  tile_width :: real
  tile_visible_radius :: int
  known_cells :: "string \<rightharpoonup> ref"
  cell_objs :: "ref \<Rightarrow> Cell"
  cell_next :: ref

definition createBoard :: Board where
  "createBoard =
     \<lparr>tile_width = TILE_DEGREES, tile_visible_radius = NEIGHBORHOOD_SIZE,
      known_cells = Map.empty, cell_objs = (\<lambda>r. \<lparr>cell_i = 0, cell_j = 0\<rparr>), cell_next = 0\<rparr>"

text \<open>\<^verbatim>\<open>getCell(i, j)\<close>; the final \<open>the\<close> is the non-null assertion of the source.\<close>

definition getCell :: "Board \<Rightarrow> int \<Rightarrow> int \<Rightarrow> ref \<times> Board" where
  "getCell b i j =
     (let key = coords_toString i j;
          b' = (if key \<notin> dom (known_cells b)
                then b\<lparr>known_cells := (known_cells b)(key \<mapsto> cell_next b),
                       cell_objs := (cell_objs b)(cell_next b := \<lparr>cell_i = i, cell_j = j\<rparr>),
                       cell_next := Suc (cell_next b)\<rparr>
                else b)
      in (the (known_cells b' key), b'))"

text \<open>
  \<^verbatim>\<open>getCellFromPoint(point)\<close>: \<^verbatim>\<open>Math.floor\<close> of the double quotient. The floor of a double
  is an integer and exact.
\<close>

definition getCellFromPoint :: "Board \<Rightarrow> latlng \<Rightarrow> ref \<times> Board" where
  "getCellFromPoint b point =
     (let i = \<lfloor>double_div (lat point) (tile_width b)\<rfloor>;
          j = \<lfloor>double_div (lng point) (tile_width b)\<rfloor>
      in getCell b i j)"

text \<open>The two nested \<^verbatim>\<open>for\<close> loops run over \<open>- radius, ..., radius - 1\<close>.\<close>

definition getCellsNearPoint :: "Board \<Rightarrow> latlng \<Rightarrow> ref list \<times> Board" where
  "getCellsNearPoint b point =
     (case getCellFromPoint b point of (origin_cell, b0) \<Rightarrow>
        fold (\<lambda>i. fold (\<lambda>j (cells, b1).
                (case getCell b1 (i + cell_i (cell_objs b1 origin_cell))
                                 (j + cell_j (cell_objs b1 origin_cell)) of
                   (c, b2) \<Rightarrow> (cells @ [c], b2)))
              [- tile_visible_radius b .. tile_visible_radius b - 1])
          [- tile_visible_radius b .. tile_visible_radius b - 1] ([], b0))"

text \<open>
  Any number of later \<^verbatim>\<open>getCell\<close> calls, in order. \<^verbatim>\<open>getCellFromPoint\<close> and
  \<^verbatim>\<open>getCellsNearPoint\<close> reach the board through \<^verbatim>\<open>getCell\<close> only, so every board of a session
  is \<open>getCell_calls createBoard ijs\<close> for some list of coordinates.
\<close>

fun getCell_calls :: "Board \<Rightarrow> (int \<times> int) list \<Rightarrow> Board" where
  "getCell_calls b [] = b"
| "getCell_calls b ((i, j) # ijs) = getCell_calls (snd (getCell b i j)) ijs"

text \<open>
  What holds of such a board: every cached reference is an allocated cell object, stored
  under the key of its own coordinates.
\<close>

definition board_inv :: "Board \<Rightarrow> bool" where
  "board_inv b \<longleftrightarrow>
     (\<forall>k r. known_cells b k = Some r \<longrightarrow>
        r < cell_next b \<and> k = coords_toString (cell_i (cell_objs b r)) (cell_j (cell_objs b r)))"

section \<open>Showing caches\<close>

text \<open>
  \<^verbatim>\<open>luck\<close> is imported from \<^verbatim>\<open>./luck.ts\<close> and is a parameter here. The callback of
  \<^verbatim>\<open>cells.forEach\<close> in \<^verbatim>\<open>showNearbyCaches\<close>, on one cell: the result is the cache handed to
  \<^verbatim>\<open>mapService.addCache\<close>, if any.
\<close>

definition showNearbyCaches_cell ::
    "(string \<Rightarrow> real) \<Rightarrow> State \<Rightarrow> Cell \<Rightarrow> error + (ref option \<times> State)" where
  "showNearbyCaches_cell luck s c =
     (let chance = luck (coords_toString (cell_i c) (cell_j c)) in
      if chance < CACHE_SPAWN_PROBABILITY then
        if \<not> momentos_has s (coords_toString (cell_i c) (cell_j c)) then
          (let num_coins = \<lfloor>chance * 30\<rfloor> + 1 in
           case createCache s (cell_i c) (cell_j c) num_coins of
             (cache, s') \<Rightarrow> Inr (Some cache, s'))
        else
          (let momento = the (momentos_get s (coords_toString (cell_i c) (cell_j c))) in
           case createCache s (cell_i c) (cell_j c) 0 of
             (cache, s') \<Rightarrow>
               (case fromMomento s' cache momento of
                  Inl e \<Rightarrow> Inl e
                | Inr s'' \<Rightarrow> Inr (Some cache, s'')))
      else Inr (None, s))"

fun showNearbyCaches_forEach ::
    "(string \<Rightarrow> real) \<Rightarrow> (ref \<Rightarrow> Cell) \<Rightarrow> State \<Rightarrow> ref list \<Rightarrow> error + (ref list \<times> State)" where
  "showNearbyCaches_forEach luck h s [] = Inr ([], s)"
| "showNearbyCaches_forEach luck h s (c # cs) =
     (case showNearbyCaches_cell luck s (h c) of
        Inl e \<Rightarrow> Inl e
      | Inr (shown, s') \<Rightarrow>
          (case showNearbyCaches_forEach luck h s' cs of
             Inl e \<Rightarrow> Inl e
           | Inr (rest, s'') \<Rightarrow>
               Inr ((case shown of None \<Rightarrow> rest | Some cache \<Rightarrow> cache # rest), s'')))"

definition showNearbyCaches ::
    "(string \<Rightarrow> real) \<Rightarrow> Board \<Rightarrow> State \<Rightarrow> latlng \<Rightarrow> error + (ref list \<times> Board \<times> State)" where
  "showNearbyCaches luck b s coord =
     (case getCellsNearPoint b coord of (cells, b') \<Rightarrow>
        (case showNearbyCaches_forEach luck (cell_objs b') s cells of
           Inl e \<Rightarrow> Inl e
         | Inr (shown, s') \<Rightarrow> Inr (shown, b', s')))"

text \<open>
  A \<^verbatim>\<open>luck\<close> for the scenario of the specification: \<open>0.05\<close> at the key of cell \<open>(0, 0)\<close>, and
  no cache anywhere else.
\<close>

definition luck_example :: "string \<Rightarrow> real" where
  "luck_example key = (if key = ''0,0'' then 1 / 20 else 1)"

section \<open>Movement trail\<close>

text \<open>
  \<^verbatim>\<open>mapService.calculateDistance\<close> is Leaflet's \<^verbatim>\<open>distanceTo\<close> and is a parameter. Reading
  the last point of an empty polyline gives \<^verbatim>\<open>undefined\<close>, on which \<^verbatim>\<open>distanceTo\<close> throws.
\<close>

definition updateLocationHistory :: "(latlng \<Rightarrow> latlng \<Rightarrow> real) \<Rightarrow> State \<Rightarrow> error + State" where
  "updateLocationHistory calculateDistance s =
     (if length (locHistory s) = 0 then Inr (s\<lparr>locHistory := locHistory s @ [[origin s]]\<rparr>)
      else
        (let lastPos = last (locHistory s) in
         if lastPos = [] then Inl TypeError
         else if calculateDistance (origin s) (last lastPos) < HISTORY_UPDATE_DISTANCE
         then Inr (s\<lparr>locHistory := butlast (locHistory s) @ [lastPos @ [origin s]]\<rparr>)
         else Inr (s\<lparr>locHistory := locHistory s @ [[origin s]]\<rparr>)))"

text \<open>A stand-in for \<^verbatim>\<open>calculateDistance\<close> on concrete trails: the gap in latitude.\<close>

definition lat_gap :: "latlng \<Rightarrow> latlng \<Rightarrow> real" where
  "lat_gap a b = \<bar>lat a - lat b\<bar>"

section \<open>Session persistence\<close>

text \<open>
  \<^verbatim>\<open>localStorage\<close> under the keys \<^verbatim>\<open>data\<close>, \<^verbatim>\<open>loc\<close> and \<^verbatim>\<open>hist\<close>. Each item is kept as the
  value its JSON text denotes, \<open>None\<close> when \<^verbatim>\<open>getItem\<close> returns \<^verbatim>\<open>null\<close>; texts that do not
  parse are not modelled.
\<close>

record Storage =
  item_data :: "(string \<times> string) list option"
  item_loc :: "(real \<times> real) option"
  item_hist :: "latlng list list option"

definition empty_storage :: Storage where
  "empty_storage = \<lparr>item_data = None, item_loc = None, item_hist = None\<rparr>"

text \<open>
  The module-level statements before \<^verbatim>\<open>loadData()\<close>: \<^verbatim>\<open>inventory = createCache(0, 0, 0)\<close>
  with its \<^verbatim>\<open>toString\<close> replaced, empty \<^verbatim>\<open>momentos\<close> and \<^verbatim>\<open>locHistory\<close>, and
  \<^verbatim>\<open>origin = OAKES_CLASSROOM\<close>.
\<close>

definition inventory :: ref where
  "inventory = 0"

definition empty_state :: State where
  "empty_state =
     \<lparr>coin_objs = (\<lambda>r. \<lparr>cell = \<lparr>cell_i = 0, cell_j = 0\<rparr>, serial = 0\<rparr>), coin_next = 0,
      cache_objs = (\<lambda>r. \<lparr>cache_cell = \<lparr>cell_i = 0, cell_j = 0\<rparr>, coins = [], toString = []\<rparr>),
      cache_next = 0, momentos = [], locHistory = [], origin = OAKES_CLASSROOM\<rparr>"

definition init_state :: State where
  "init_state =
     (case createCache empty_state 0 0 0 of
        (c, s) \<Rightarrow> s\<lparr>cache_objs := (cache_objs s)(c := (cache_objs s c)\<lparr>toString := ''inventory''\<rparr>)\<rparr>)"

definition saveData :: "State \<Rightarrow> Storage \<Rightarrow> Storage" where
  "saveData s st =
     st\<lparr>item_data := Some (momentos s),
        item_loc := Some (lat (origin s), lng (origin s)),
        item_hist := Some (locHistory s)\<rparr>"

definition loadData :: "Storage \<Rightarrow> State \<Rightarrow> error + State" where
  "loadData st s =
     (case item_data st of
        None \<Rightarrow> Inr s
      | Some data_array \<Rightarrow>
          (let s1 = fold (\<lambda>(key, value) s'. momentos_set s' key value) data_array s in
           case (case momentos_get s1 ''inventory'' of
                   None \<Rightarrow> Inr s1
                 | Some inv' \<Rightarrow> if inv' = [] then Inr s1 else fromMomento s1 inventory inv') of
             Inl e \<Rightarrow> Inl e
           | Inr s2 \<Rightarrow>
               (let s3 = (case item_loc st of
                            None \<Rightarrow> s2
                          | Some (la, lo) \<Rightarrow> s2\<lparr>origin := \<lparr>lat = la, lng = lo\<rparr>\<rparr>);
                    s4 = (case item_hist st of
                            None \<Rightarrow> s3
                          | Some temp \<Rightarrow> s3\<lparr>locHistory := locHistory s3 @ temp\<rparr>)
                in Inr s4)))"

section \<open>Helper lemmas\<close>

lemma indexOf_neg_iff: "indexOf xs x < 0 \<longleftrightarrow> x \<notin> set xs"
  by (induction xs) (auto simp: Let_def)

lemma indexOf_nonneg_iff: "0 \<le> indexOf xs x \<longleftrightarrow> x \<in> set xs"
  using indexOf_neg_iff [of xs x] by auto

lemma splice_indexOf: "x \<in> set xs \<Longrightarrow> splice_js xs (nat (indexOf xs x)) = remove1 x xs"
proof (induction xs)
  case Nil
  then show ?case by simp
next
  case (Cons y ys)
  show ?case
  proof (cases "y = x")
    case True
    then show ?thesis by (simp add: splice_js_def)
  next
    case False
    with Cons.prems have mem: "x \<in> set ys" by simp
    then have nn: "0 \<le> indexOf ys x" by (simp add: indexOf_nonneg_iff)
    have "splice_js ys (nat (indexOf ys x)) = remove1 x ys" using Cons.IH mem by simp
    with False nn show ?thesis
      by (simp add: splice_js_def Let_def nat_add_distrib)
  qed
qed

lemma set_coins_fields [simp]:
  "coin_objs (set_coins s c rs) = coin_objs s"
  "coin_next (set_coins s c rs) = coin_next s"
  "cache_next (set_coins s c rs) = cache_next s"
  "momentos (set_coins s c rs) = momentos s"
  "locHistory (set_coins s c rs) = locHistory s"
  "origin (set_coins s c rs) = origin s"
  "coins (cache_objs (set_coins s c rs) c) = rs"
  "toString (cache_objs (set_coins s c rs) d) = toString (cache_objs s d)"
  "cache_cell (cache_objs (set_coins s c rs) d) = cache_cell (cache_objs s d)"
  "d \<noteq> c \<Longrightarrow> cache_objs (set_coins s c rs) d = cache_objs s d"
  by (simp_all add: set_coins_def)

lemma momentos_set_fields [simp]:
  "coin_objs (momentos_set s k v) = coin_objs s"
  "coin_next (momentos_set s k v) = coin_next s"
  "cache_objs (momentos_set s k v) = cache_objs s"
  "cache_next (momentos_set s k v) = cache_next s"
  "locHistory (momentos_set s k v) = locHistory s"
  "origin (momentos_set s k v) = origin s"
  "momentos (momentos_set s k v) = AList.update k v (momentos s)"
  by (simp_all add: momentos_set_def)

lemma momentos_get_set [simp]:
  "momentos_get (momentos_set s k v) k' = (if k' = k then Some v else momentos_get s k')"
  by (simp add: momentos_get_def update_conv')

lemma coin_data_momentos_set [simp]: "coin_data (momentos_set s k v) c = coin_data s c"
  by (simp add: coin_data_def)

lemma toMomento_momentos_set [simp]: "toMomento (momentos_set s k v) c = toMomento s c"
  by (simp add: toMomento_def)

text \<open>What a successful transfer between two different cache objects leaves.\<close>

lemma transfer_present:
  assumes "coin \<in> set (coins (cache_objs s a))" and "a \<noteq> b"
  shows "coins (cache_objs (transfer s a b coin) a) = remove1 coin (coins (cache_objs s a))"
    and "coins (cache_objs (transfer s a b coin) b) = coins (cache_objs s b) @ [coin]"
    and "coin_objs (transfer s a b coin) = coin_objs s"
    and "toString (cache_objs (transfer s a b coin) c) = toString (cache_objs s c)"
    and "momentos_get (transfer s a b coin) (toString (cache_objs s b)) =
           Some (toMomento (transfer s a b coin) b)"
    and "momentos_get (transfer s a b coin) (toString (cache_objs s a)) =
           Some (if toString (cache_objs s a) = toString (cache_objs s b)
                 then toMomento (transfer s a b coin) b else toMomento (transfer s a b coin) a)"
  using assms
  by (simp_all add: transfer_def Let_def indexOf_neg_iff splice_indexOf toMomento_def coin_data_def)

subsection \<open>Printing and parsing\<close>

lemma of_char_digit_of: "d < 10 \<Longrightarrow> (of_char (digit_of d) :: nat) = 48 + d"
  by (simp add: digit_of_def)

lemma is_digit_digit_of: "d < 10 \<Longrightarrow> is_digit (digit_of d)"
  by (simp add: is_digit_def of_char_digit_of)

lemma digit_val_digit_of: "d < 10 \<Longrightarrow> digit_val (digit_of d) = d"
  by (simp add: digit_val_def of_char_digit_of)

lemma digit_of_eq_zero: "d < 10 \<Longrightarrow> digit_of d = CHR ''0'' \<longleftrightarrow> d = 0"
proof -
  assume d: "d < 10"
  have "digit_of d = CHR ''0'' \<longleftrightarrow> (of_char (digit_of d) :: nat) = of_char (CHR ''0'')"
    by (simp only: of_char_eq_iff)
  with d show ?thesis by (simp add: of_char_digit_of)
qed

lemma not_is_digit_chars [simp]:
  "\<not> is_digit CHR ''-''" "\<not> is_digit CHR '',''" "\<not> is_digit CHR ''}''" "\<not> is_digit CHR '']''"
  by (simp_all add: is_digit_def)

lemma show_nat_digits: "c \<in> set (show_nat n) \<Longrightarrow> is_digit c"
proof (induction n arbitrary: c rule: show_nat.induct)
  case (1 n)
  show ?case
  proof (cases "n < 10")
    case True
    with "1.prems" show ?thesis
      by (simp add: show_nat.simps [of n] is_digit_digit_of)
  next
    case False
    with "1.prems" "1.IH" show ?thesis
      by (auto simp: show_nat.simps [of n] is_digit_digit_of)
  qed
qed

lemma show_nat_not_Nil: "show_nat n \<noteq> []"
  by (subst show_nat.simps) simp

lemma show_nat_value: "foldl (\<lambda>a c. 10 * a + digit_val c) 0 (show_nat n) = n"
proof (induction n rule: show_nat.induct)
  case (1 n)
  show ?case
  proof (cases "n < 10")
    case True
    then show ?thesis
      by (simp add: show_nat.simps [of n] digit_val_digit_of)
  next
    case False
    with "1.IH" show ?thesis
      by (simp add: show_nat.simps [of n] digit_val_digit_of)
  qed
qed

lemma show_nat_leading_zero: "hd (show_nat n) = CHR ''0'' \<longleftrightarrow> n = 0"
proof (induction n rule: show_nat.induct)
  case (1 n)
  show ?case
  proof (cases "n < 10")
    case True
    then show ?thesis
      by (simp add: show_nat.simps [of n] digit_of_eq_zero)
  next
    case False
    with "1.IH" show ?thesis
      by (simp add: show_nat.simps [of n] show_nat_not_Nil)
  qed
qed

lemma show_nat_zero: "show_nat 0 = ''0''"
  by code_simp

lemma parse_digits_show_nat:
  assumes "stops r"
  shows "parse_digits (show_nat n @ r) = Some (n, r)"
proof -
  have tw: "takeWhile is_digit r = []" and dw: "dropWhile is_digit r = r"
    using assms by (auto simp: stops_def split: list.splits)
  have t: "takeWhile is_digit (show_nat n @ r) = show_nat n"
    by (simp add: takeWhile_append2 show_nat_digits tw)
  have d: "dropWhile is_digit (show_nat n @ r) = r"
    by (simp add: dropWhile_append2 show_nat_digits dw)
  have z: "\<not> (hd (show_nat n) = CHR ''0'' \<and> 1 < length (show_nat n))"
    by (auto simp: show_nat_leading_zero show_nat_zero)
  show ?thesis
    unfolding parse_digits_def Let_def t d
    using z by (simp add: show_nat_not_Nil show_nat_value)
qed

lemma parse_int_show_int:
  assumes "stops r"
  shows "parse_int (show_int n @ r) = Some (n, r)"
proof (cases "n < 0")
  case True
  then show ?thesis
    by (simp add: parse_int_def show_int_def parse_digits_show_nat [OF assms])
next
  case False
  obtain c cs where cs: "show_nat (nat n) = c # cs"
    using show_nat_not_Nil [of "nat n"] by (cases "show_nat (nat n)") auto
  then have "is_digit c"
    using show_nat_digits [of c "nat n"] by simp
  then have "c \<noteq> CHR ''-''" by auto
  moreover have "parse_digits (c # cs @ r) = Some (nat n, r)"
    using parse_digits_show_nat [OF assms, of "nat n"] cs by simp
  ultimately show ?thesis
    using False by (simp add: parse_int_def show_int_def cs)
qed

lemma show_int_inj: "show_int m = show_int n \<Longrightarrow> m = n"
proof -
  assume eq: "show_int m = show_int n"
  have st: "stops []" by (simp add: stops_def)
  have "Some (m, []) = parse_int (show_int m @ [])"
    by (simp only: parse_int_show_int [OF st])
  also have "\<dots> = parse_int (show_int n @ [])"
    by (simp only: eq)
  also have "\<dots> = Some (n, [])"
    by (simp only: parse_int_show_int [OF st])
  finally show ?thesis by simp
qed

lemma coords_toString_inj:
  assumes "coords_toString i j = coords_toString i' j'"
  shows "i = i' \<and> j = j'"
proof -
  have st: "stops ('','' @ s)" for s by (simp add: stops_def)
  have "Some (i, '','' @ show_int j) = parse_int (show_int i @ '','' @ show_int j)"
    by (simp only: parse_int_show_int [OF st])
  also have "\<dots> = parse_int (show_int i' @ '','' @ show_int j')"
    using assms by (simp only: coords_toString_def)
  also have "\<dots> = Some (i', '','' @ show_int j')"
    by (simp only: parse_int_show_int [OF st])
  finally have "i = i' \<and> show_int j = show_int j'" by simp
  then show ?thesis by (auto dest: show_int_inj)
qed

lemma key00: "coords_toString 0 0 = ''0,0''"
  by code_simp

lemma expect_append: "expect p (p @ r) = Some r"
  by (simp add: expect_def)

lemma parse_coin_coin_json: "parse_coin (coin_json c @ r) = Some (c, r)"
proof -
  have st1: "stops ('','' @ s)" and st2: "stops (''}'' @ s)" for s
    by (simp_all add: stops_def)
  have "parse_coin ((''{'' @ quoted ''cell'' @ '':{'' @ quoted ''i'' @ '':'') @ show_int (cell_i (cell c)) @
     ('','' @ quoted ''j'' @ '':'') @ show_int (cell_j (cell c)) @
     (''},'' @ quoted ''serial'' @ '':'') @ show_int (serial c) @ ''}'' @ r) = Some (c, r)"
    unfolding parse_coin_def
    apply (simp only: expect_append option.case)
    apply (subst parse_int_show_int)
    subgoal by (simp add: stops_def quoted_def)
    apply (simp only: option.case prod.case expect_append)
    apply (subst parse_int_show_int)
    subgoal by (simp add: stops_def quoted_def)
    apply (simp only: option.case prod.case expect_append)
    apply (subst parse_int_show_int)
    subgoal by (simp add: stops_def quoted_def)
    apply (simp only: option.case prod.case expect_append)
    apply simp
    done
  then show ?thesis
    by (simp add: coin_json_def)
qed

lemma coin_json_not_Nil: "coin_json c \<noteq> []"
  by (simp add: coin_json_def)

lemma join_commas_Cons:
  "join_commas (x # xs) = (if xs = [] then x else x @ '','' @ join_commas xs)"
  by (cases xs) simp_all

lemma parse_elems_join:
  "length cs < n \<Longrightarrow>
   parse_elems n (join_commas (map coin_json (c # cs)) @ '']'') = Some (c # cs)"
proof (induction cs arbitrary: n c)
  case Nil
  then obtain m where n: "n = Suc m" by (cases n) auto
  show ?case
    by (simp add: n parse_coin_coin_json)
next
  case (Cons d ds)
  then obtain m where n: "n = Suc m" and m: "length ds < m" by (cases n) auto
  have step: "parse_coin (coin_json c @ '','' @ join_commas (map coin_json (d # ds)) @ '']'') =
      Some (c, '','' @ join_commas (map coin_json (d # ds)) @ '']'')"
    by (rule parse_coin_coin_json)
  have "parse_elems (Suc m) (coin_json c @ '','' @ join_commas (map coin_json (d # ds)) @ '']'') =
      map_option ((#) c) (parse_elems m (join_commas (map coin_json (d # ds)) @ '']''))"
    unfolding parse_elems.simps step by (simp add: expect_def)
  then show ?case
    using Cons.IH [OF m, of d] by (simp add: n)
qed

lemma length_join_commas: "length cs \<le> length (join_commas (map coin_json cs))"
proof (induction cs)
  case Nil
  then show ?case by simp
next
  case (Cons c cs)
  have "1 \<le> length (coin_json c)"
    using coin_json_not_Nil [of c] by (cases "coin_json c") auto
  with Cons show ?case
    by (cases cs) auto
qed

lemma JSON_parse_stringify: "JSON_parse (JSON_stringify cs) = Some cs"
proof (cases cs)
  case Nil
  then show ?thesis
    by (simp add: JSON_parse_def JSON_stringify_def expect_def)
next
  case (Cons c ds)
  let ?body = "join_commas (map coin_json (c # ds)) @ '']''"
  have ne: "?body \<noteq> '']''"
    by (cases ds) (simp_all add: coin_json_def)
  have len: "length ds < length ?body"
    using length_join_commas [of "c # ds"] by simp
  have "JSON_parse (''['' @ ?body) = parse_elems (length ?body) ?body"
    unfolding JSON_parse_def expect_append using ne by simp
  then show ?thesis
    using parse_elems_join [OF len] by (simp add: JSON_stringify_def Cons)
qed

lemma new_coin_fields [simp]:
  "fst (new_coin s c) = coin_next s"
  "coin_next (snd (new_coin s c)) = Suc (coin_next s)"
  "coin_objs (snd (new_coin s c)) = (coin_objs s)(coin_next s := c)"
  "cache_objs (snd (new_coin s c)) = cache_objs s"
  "cache_next (snd (new_coin s c)) = cache_next s"
  "momentos (snd (new_coin s c)) = momentos s"
  "locHistory (snd (new_coin s c)) = locHistory s"
  "origin (snd (new_coin s c)) = origin s"
  by (simp_all add: new_coin_def)

lemma new_coins_props:
  "new_coins s cs = (rs, s') \<Longrightarrow>
     rs = [coin_next s ..< coin_next s + length cs] \<and>
     coin_next s' = coin_next s + length cs \<and>
     map (coin_objs s') rs = cs \<and>
     (\<forall>r < coin_next s. coin_objs s' r = coin_objs s r) \<and>
     cache_objs s' = cache_objs s \<and> cache_next s' = cache_next s \<and>
     momentos s' = momentos s \<and> locHistory s' = locHistory s \<and> origin s' = origin s"
proof (induction cs arbitrary: s rs s')
  case Nil
  then show ?case by simp
next
  case (Cons c cs)
  obtain rs1 s1 where rec: "new_coins (snd (new_coin s c)) cs = (rs1, s1)"
    by (cases "new_coins (snd (new_coin s c)) cs") auto
  with Cons.prems have rs: "rs = coin_next s # rs1" and s': "s' = s1"
    by (auto simp: split_beta split: prod.splits)
  note IH = Cons.IH [OF rec]
  have nx: "coin_next (snd (new_coin s c)) = Suc (coin_next s)"
    and ob: "coin_objs (snd (new_coin s c)) = (coin_objs s)(coin_next s := c)"
    by simp_all
  from IH have rs1: "rs1 = [Suc (coin_next s) ..< Suc (coin_next s) + length cs]"
    unfolding nx by blast
  from IH have data: "map (coin_objs s1) rs1 = cs"
    by blast
  from IH have old: "\<forall>r < Suc (coin_next s). coin_objs s1 r = ((coin_objs s)(coin_next s := c)) r"
    unfolding nx ob by blast
  then have keep: "coin_objs s1 (coin_next s) = c"
    by simp
  have "[coin_next s ..< Suc (coin_next s) + length cs] =
      coin_next s # [Suc (coin_next s) ..< Suc (coin_next s) + length cs]"
    by (rule upt_conv_Cons) simp
  then have "rs = [coin_next s ..< coin_next s + length (c # cs)]"
    unfolding rs rs1 by (simp only: list.size add_Suc add_Suc_right add_0_right)
  moreover have "map (coin_objs s') rs = c # cs"
    unfolding rs s' using keep data by simp
  moreover have "\<forall>r < coin_next s. coin_objs s' r = coin_objs s r"
    unfolding s' using old by simp
  moreover from IH have "coin_next s1 = coin_next (snd (new_coin s c)) + length cs"
    by blast
  then have "coin_next s' = coin_next s + length (c # cs)"
    unfolding s' nx by simp
  moreover from IH have "cache_objs s1 = cache_objs (snd (new_coin s c)) \<and>
     cache_next s1 = cache_next (snd (new_coin s c)) \<and>
     momentos s1 = momentos (snd (new_coin s c)) \<and>
     locHistory s1 = locHistory (snd (new_coin s c)) \<and> origin s1 = origin (snd (new_coin s c))"
    by blast
  then have "cache_objs s' = cache_objs s \<and> cache_next s' = cache_next s \<and>
     momentos s' = momentos s \<and> locHistory s' = locHistory s \<and> origin s' = origin s"
    unfolding s' by simp
  ultimately show ?case by blast
qed

lemma fromMomento_toMomento:
  "\<exists>s'. fromMomento s c (toMomento s0 c0) = Inr s' \<and> coin_data s' c = coin_data s0 c0"
proof -
  obtain rs s1 where nc: "new_coins s (coin_data s0 c0) = (rs, s1)"
    by (cases "new_coins s (coin_data s0 c0)") auto
  have "fromMomento s c (toMomento s0 c0) = Inr (set_coins s1 c rs)"
    by (simp add: fromMomento_def toMomento_def JSON_parse_stringify nc)
  moreover from new_coins_props [OF nc] have "map (coin_objs s1) rs = coin_data s0 c0"
    by blast
  then have "coin_data (set_coins s1 c rs) c = coin_data s0 c0"
    unfolding coin_data_def [of "set_coins s1 c rs"] by simp
  ultimately show ?thesis by blast
qed

section \<open>Claims about \<^verbatim>\<open>transfer\<close>\<close>

text \<open>
  Claim C1, as amended. For two different cache objects \<open>a\<close> and \<open>b\<close> and a coin present in
  the coins of \<open>a\<close>, \<open>transfer\<close> removes the first occurrence of the coin from the coins of
  \<open>a\<close> and appends the coin to the end of the coins of \<open>b\<close>. Afterwards the coin is in \<open>b\<close>; it
  is still in \<open>a\<close> exactly when \<open>a\<close> held the same coin object more than once. The memento
  table then holds, under the key of \<open>b\<close>, the memento of the new coins of \<open>b\<close>, and under the
  key of \<open>a\<close> the memento of the new coins of \<open>a\<close>, unless the two caches have the same key:
  then the one entry holds the memento of \<open>b\<close>, which is written last.
\<close>

theorem C1_transfer_present_distinct:
  assumes "coin \<in> set (coins (cache_objs s a))" and "a \<noteq> b"
  shows "(let s' = transfer s a b coin in
          coins (cache_objs s' a) = remove1 coin (coins (cache_objs s a)) \<and>
          coins (cache_objs s' b) = coins (cache_objs s b) @ [coin] \<and>
          coin \<in> set (coins (cache_objs s' b)) \<and>
          (coin \<in> set (coins (cache_objs s' a)) \<longleftrightarrow> 1 < count_list (coins (cache_objs s a)) coin) \<and>
          momentos_get s' (toString (cache_objs s' b)) = Some (toMomento s' b) \<and>
          momentos_get s' (toString (cache_objs s' a)) =
            Some (if toString (cache_objs s' a) = toString (cache_objs s' b)
                  then toMomento s' b else toMomento s' a))"
proof -
  have cnt: "x \<in> set (remove1 x xs) \<longleftrightarrow> 1 < count_list xs x" for x :: ref and xs
  proof -
    have "x \<in> set (remove1 x xs) \<longleftrightarrow> 0 < count (mset (remove1 x xs)) x"
      by (simp only: count_greater_zero_iff set_mset_mset)
    also have "\<dots> \<longleftrightarrow> 1 < count (mset xs) x"
      by auto
    finally show ?thesis
      by (simp only: count_mset)
  qed
  show ?thesis
    using assms unfolding Let_def
    by (simp add: transfer_present cnt)
qed

theorem C1_transfer_present_distinct_witness:
  "(let s = snd (createCache init_state 0 0 2); s' = transfer s 1 inventory 0 in
    (0::nat) \<in> set (coins (cache_objs s 1)) \<and> (1::nat) \<noteq> inventory \<and>
    coins (cache_objs s' 1) = [1] \<and> coins (cache_objs s' inventory) = [0] \<and>
    momentos_get s' ''inventory'' = Some (toMomento s' inventory) \<and>
    momentos_get s' ''0,0'' = Some (toMomento s' 1))"
proof -
  have h1: "(0::nat) \<in> set (coins (cache_objs (snd (createCache init_state 0 0 2)) 1))"
    by code_simp
  have h2: "(1::nat) \<noteq> inventory"
    by (simp add: inventory_def)
  have c1: "coins (cache_objs (snd (createCache init_state 0 0 2)) 1) = [0, 1]"
    by code_simp
  have c0: "coins (cache_objs (snd (createCache init_state 0 0 2)) inventory) = []"
    by code_simp
  have k1: "toString (cache_objs (snd (createCache init_state 0 0 2)) 1) = ''0,0''"
    by code_simp
  have k0: "toString (cache_objs (snd (createCache init_state 0 0 2)) inventory) = ''inventory''"
    by code_simp
  show ?thesis
    using h1 h2 C1_transfer_present_distinct [OF h1 h2]
    by (simp add: Let_def c1 c0 k1 k0 transfer_present(4) [OF h1 h2] del: One_nat_def)
qed

text \<open>
  Claim C1 as stated, for every pair of caches, fails in three ways: when \<open>a\<close> and \<open>b\<close> are
  the same object the coin is still in \<open>a\<close>; when the array of \<open>a\<close> holds the coin object
  twice it is still in \<open>a\<close>; when two cache objects of the same cell are involved, the entry
  under the key of \<open>a\<close> is the memento of \<open>b\<close>.
\<close>

theorem C1_transfer_counterexample:
  "((0::nat) \<in> set (coins (cache_objs (snd (createCache init_state 0 0 1)) 1)) \<and>
    0 \<in> set (coins (cache_objs (transfer (snd (createCache init_state 0 0 1)) 1 1 0) 1))) \<and>
   ((0::nat) \<in> set (coins (cache_objs (set_coins (snd (createCache init_state 0 0 1)) 1 [0, 0]) 1)) \<and>
    0 \<in> set (coins (cache_objs
            (transfer (set_coins (snd (createCache init_state 0 0 1)) 1 [0, 0]) 1 inventory 0) 1))) \<and>
   ((0::nat) \<in> set (coins (cache_objs
            (snd (createCache (snd (createCache init_state 0 0 1)) 0 0 0)) 1)) \<and>
    momentos_get (transfer (snd (createCache (snd (createCache init_state 0 0 1)) 0 0 0)) 1 2 0)
        (toString (cache_objs
            (transfer (snd (createCache (snd (createCache init_state 0 0 1)) 0 0 0)) 1 2 0) 1)) \<noteq>
      Some (toMomento
            (transfer (snd (createCache (snd (createCache init_state 0 0 1)) 0 0 0)) 1 2 0) 1))"
  by code_simp

text \<open>
  Claim C4. For all caches \<open>a\<close> and \<open>b\<close> (the same object or not) and every coin that is not
  in the coins of \<open>a\<close>, \<open>transfer\<close> returns the state it was given: the two coin arrays, the
  memento table and everything else are unchanged.
\<close>

theorem C4_transfer_absent_noop:
  assumes "coin \<notin> set (coins (cache_objs s a))"
  shows "transfer s a b coin = s"
  using assms by (simp add: transfer_def indexOf_neg_iff)

theorem C4_transfer_absent_noop_witness:
  "(5::nat) \<notin> set (coins (cache_objs (snd (createCache init_state 0 0 2)) 1)) \<and>
   transfer (snd (createCache init_state 0 0 2)) 1 inventory 5 = snd (createCache init_state 0 0 2)"
proof -
  have h: "(5::nat) \<notin> set (coins (cache_objs (snd (createCache init_state 0 0 2)) 1))"
    by code_simp
  show ?thesis
    using h C4_transfer_absent_noop [OF h] by simp
qed

text \<open>
  Claim C10. For two different cache objects \<open>a\<close> and \<open>b\<close> and any coin, present in \<open>a\<close> or
  not, the multiset of coin references held by \<open>a\<close> and \<open>b\<close> together is the same before and
  after \<open>transfer\<close>; no coin object is created or written, so every coin keeps its cell and
  serial, and the multiset of the coins' data is the same as well.
\<close>

theorem C10_transfer_conserves:
  assumes "a \<noteq> b"
  shows "(let s' = transfer s a b coin in
          mset (coins (cache_objs s' a)) + mset (coins (cache_objs s' b)) =
            mset (coins (cache_objs s a)) + mset (coins (cache_objs s b)) \<and>
          coin_objs s' = coin_objs s \<and>
          mset (coin_data s' a) + mset (coin_data s' b) =
            mset (coin_data s a) + mset (coin_data s b))"
proof (cases "coin \<in> set (coins (cache_objs s a))")
  case True
  have "mset (remove1 coin (coins (cache_objs s a))) + {#coin#} = mset (coins (cache_objs s a))"
    using True by simp
  then have refs: "mset (remove1 coin (coins (cache_objs s a))) + mset (coins (cache_objs s b) @ [coin]) =
      mset (coins (cache_objs s a)) + mset (coins (cache_objs s b))"
    by (simp add: union_ac)
  have "mset (map (coin_objs s) (remove1 coin (coins (cache_objs s a)))) +
        mset (map (coin_objs s) (coins (cache_objs s b) @ [coin])) =
        image_mset (coin_objs s) (mset (remove1 coin (coins (cache_objs s a))) + mset (coins (cache_objs s b) @ [coin]))"
    by simp
  also have "\<dots> = image_mset (coin_objs s) (mset (coins (cache_objs s a)) + mset (coins (cache_objs s b)))"
    by (simp only: refs)
  finally have data: "mset (map (coin_objs s) (remove1 coin (coins (cache_objs s a)))) +
        mset (map (coin_objs s) (coins (cache_objs s b) @ [coin])) =
        mset (map (coin_objs s) (coins (cache_objs s a))) + mset (map (coin_objs s) (coins (cache_objs s b)))"
    by simp
  show ?thesis
    unfolding Let_def coin_data_def
    using refs data by (simp add: transfer_present [OF True assms])
next
  case False
  then have "transfer s a b coin = s"
    by (simp add: transfer_def indexOf_neg_iff)
  then show ?thesis by (simp add: Let_def)
qed

theorem C10_transfer_conserves_witness:
  "(let s = snd (createCache init_state 0 0 2); s' = transfer s 1 inventory 0 in
    (1::nat) \<noteq> inventory \<and>
    mset (coins (cache_objs s' 1)) + mset (coins (cache_objs s' inventory)) = {#0, 1#} \<and>
    coin_objs s' = coin_objs s)"
proof -
  have h: "(1::nat) \<noteq> inventory"
    by (simp add: inventory_def)
  have c1: "coins (cache_objs (snd (createCache init_state 0 0 2)) 1) = [0, 1]"
    by code_simp
  have c0: "coins (cache_objs (snd (createCache init_state 0 0 2)) inventory) = []"
    by code_simp
  show ?thesis
    using h C10_transfer_conserves [OF h, of "snd (createCache init_state 0 0 2)" 0]
    by (simp add: Let_def c1 c0 del: One_nat_def)
qed

section \<open>Claims about mementos\<close>

lemma momentos_has_get: "momentos_get s k = Some v \<Longrightarrow> momentos_has s k"
  by (auto simp: momentos_get_def momentos_has_def dest: map_of_SomeD intro: rev_image_eqI)

lemma showNearbyCaches_cell_restore:
  assumes "momentos_get s (coords_toString i j) = Some (toMomento s0 c0)"
    and "luck (coords_toString i j) < 1 / 10"
  shows "\<exists>cache s'. showNearbyCaches_cell luck s \<lparr>cell_i = i, cell_j = j\<rparr> = Inr (Some cache, s') \<and>
           coin_data s' cache = coin_data s0 c0"
proof -
  let ?c = "fst (createCache s i j 0)" and ?s1 = "snd (createCache s i j 0)"
  obtain s' where f: "fromMomento ?s1 ?c (toMomento s0 c0) = Inr s'"
    and d: "coin_data s' ?c = coin_data s0 c0"
    using fromMomento_toMomento by blast
  have "showNearbyCaches_cell luck s \<lparr>cell_i = i, cell_j = j\<rparr> = Inr (Some ?c, s')"
    using assms momentos_has_get [OF assms(1)] f
    by (simp add: showNearbyCaches_cell_def CACHE_SPAWN_PROBABILITY_def Let_def split_beta)
  with d show ?thesis by blast
qed

text \<open>
  Claim C2. For every cache \<open>orig\<close> in a state \<open>saved\<close>, with any number of coins, and every
  cache \<open>c\<close> in a state \<open>s\<close> (the same session or a later one, whatever coins \<open>c\<close> holds
  before), \<open>fromMomento\<close> on the text \<open>toMomento\<close> wrote succeeds and leaves \<open>c\<close> with coins
  whose data are those of \<open>orig\<close> at save time, as a list and so as a multiset of
  (cell \<open>i\<close>, cell \<open>j\<close>, serial) triples. In particular, when that text is the memento stored
  for a cell that spawns a cache, the cache shown for the cell holds these coins, whatever
  number of coins \<^verbatim>\<open>luck\<close> would give a new cache of the cell.
\<close>

theorem C2_memento_roundtrip:
  "(\<exists>s'. fromMomento s c (toMomento saved orig) = Inr s' \<and>
         coin_data s' c = coin_data saved orig \<and>
         mset (map (\<lambda>t. (cell_i (cell t), cell_j (cell t), serial t)) (coin_data s' c)) =
         mset (map (\<lambda>t. (cell_i (cell t), cell_j (cell t), serial t)) (coin_data saved orig))) \<and>
   (momentos_get s (coords_toString i j) = Some (toMomento saved orig) \<and>
    luck (coords_toString i j) < 1 / 10 \<longrightarrow>
      (\<exists>cache s'. showNearbyCaches_cell luck s \<lparr>cell_i = i, cell_j = j\<rparr> = Inr (Some cache, s') \<and>
         coin_data s' cache = coin_data saved orig))"
proof -
  obtain s' where "fromMomento s c (toMomento saved orig) = Inr s'"
    and "coin_data s' c = coin_data saved orig"
    using fromMomento_toMomento by blast
  then have "\<exists>s'. fromMomento s c (toMomento saved orig) = Inr s' \<and>
         coin_data s' c = coin_data saved orig \<and>
         mset (map (\<lambda>t. (cell_i (cell t), cell_j (cell t), serial t)) (coin_data s' c)) =
         mset (map (\<lambda>t. (cell_i (cell t), cell_j (cell t), serial t)) (coin_data saved orig))"
    by simp
  then show ?thesis
    using showNearbyCaches_cell_restore [of s i j saved orig luck] by blast
qed

theorem C2_memento_roundtrip_witness:
  "momentos_get (transfer (snd (createCache init_state 0 0 2)) 1 inventory 0) (coords_toString 0 0) =
     Some (toMomento (transfer (snd (createCache init_state 0 0 2)) 1 inventory 0) 1) \<and>
   luck_example (coords_toString 0 0) < 1 / 10 \<and>
   (\<exists>cache s'. showNearbyCaches_cell luck_example
        (transfer (snd (createCache init_state 0 0 2)) 1 inventory 0) \<lparr>cell_i = 0, cell_j = 0\<rparr> =
          Inr (Some cache, s') \<and>
      coin_data s' cache = [\<lparr>cell = \<lparr>cell_i = 0, cell_j = 0\<rparr>, serial = 1\<rparr>])"
proof -
  let ?s = "transfer (snd (createCache init_state 0 0 2)) 1 inventory 0"
  have h1: "momentos_get ?s (coords_toString 0 0) = Some (toMomento ?s 1)"
    by code_simp
  have h2: "luck_example (coords_toString 0 0) < 1 / 10"
    by (simp add: key00 luck_example_def)
  have d: "coin_data ?s 1 = [\<lparr>cell = \<lparr>cell_i = 0, cell_j = 0\<rparr>, serial = 1\<rparr>]"
    by code_simp
  show ?thesis
    using h1 h2
      C2_memento_roundtrip [where s = ?s and saved = ?s and orig = 1 and i = 0 and j = 0
        and luck = luck_example]
    unfolding d by blast
qed

section \<open>Claims about cache generation\<close>

text \<open>The loop of \<^verbatim>\<open>createCache\<close> appends one new coin per serial and touches nothing else.\<close>

lemma createCache_loop_props:
  "(\<forall>r \<in> set (coins (cache_objs s c)). r < coin_next s) \<Longrightarrow>
     coin_data (createCache_loop s c k n) c =
       coin_data s c @ map (\<lambda>k'. \<lparr>cell = cache_cell (cache_objs s c), serial = k'\<rparr>) [k..n - 1] \<and>
     (\<forall>d. d \<noteq> c \<longrightarrow> cache_objs (createCache_loop s c k n) d = cache_objs s d) \<and>
     toString (cache_objs (createCache_loop s c k n) c) = toString (cache_objs s c) \<and>
     cache_cell (cache_objs (createCache_loop s c k n) c) = cache_cell (cache_objs s c) \<and>
     length (coins (cache_objs (createCache_loop s c k n) c)) =
       length (coins (cache_objs s c)) + nat (n - k) \<and>
     (\<forall>r < coin_next s. coin_objs (createCache_loop s c k n) r = coin_objs s r) \<and>
     coin_next s \<le> coin_next (createCache_loop s c k n) \<and>
     cache_next (createCache_loop s c k n) = cache_next s \<and>
     momentos (createCache_loop s c k n) = momentos s \<and>
     locHistory (createCache_loop s c k n) = locHistory s \<and>
     origin (createCache_loop s c k n) = origin s"
proof (induction s c k n rule: createCache_loop.induct)
  case (1 s c k n)
  show ?case
  proof (cases "k < n")
    case False
    then show ?thesis
      by (simp add: createCache_loop.simps [of s c k n])
  next
    case True
    let ?coin = "\<lparr>cell = cache_cell (cache_objs s c), serial = k\<rparr>"
    let ?s1 = "snd (new_coin s ?coin)"
    let ?s2 = "set_coins ?s1 c (coins (cache_objs ?s1 c) @ [coin_next s])"
    have unfold: "createCache_loop s c k n = createCache_loop ?s2 c (k + 1) n"
      using True by (simp add: createCache_loop.simps [of s c k n] new_coin_def)
    have pre: "\<forall>r \<in> set (coins (cache_objs ?s2 c)). r < coin_next ?s2"
      using "1.prems" by (auto simp: less_Suc_eq)
    have nc: "(coin_next s, ?s1) = new_coin s ?coin"
      by (simp add: new_coin_def)
    note IH = "1.IH" [OF True nc pre]
    have data2: "coin_data ?s2 c = coin_data s c @ [?coin]"
      using "1.prems" by (auto simp: coin_data_def)
    have up: "[k..n - 1] = k # [k + 1..n - 1]"
      using True by (simp add: upto_rec1)
    show ?thesis
      unfolding unfold
      using IH True data2 by (auto simp: up)
  qed
qed

lemma createCache_props:
  "fst (createCache s i j n) = cache_next s"
  "coin_data (snd (createCache s i j n)) (cache_next s) =
     map (\<lambda>k. \<lparr>cell = \<lparr>cell_i = i, cell_j = j\<rparr>, serial = k\<rparr>) [0..n - 1]"
  "length (coins (cache_objs (snd (createCache s i j n)) (cache_next s))) = nat n"
  "toString (cache_objs (snd (createCache s i j n)) (cache_next s)) = coords_toString i j"
  "cache_cell (cache_objs (snd (createCache s i j n)) (cache_next s)) = \<lparr>cell_i = i, cell_j = j\<rparr>"
  "d \<noteq> cache_next s \<Longrightarrow> cache_objs (snd (createCache s i j n)) d = cache_objs s d"
  "r < coin_next s \<Longrightarrow> coin_objs (snd (createCache s i j n)) r = coin_objs s r"
  "cache_next (snd (createCache s i j n)) = Suc (cache_next s)"
  "momentos (snd (createCache s i j n)) = momentos s"
  "locHistory (snd (createCache s i j n)) = locHistory s"
  "origin (snd (createCache s i j n)) = origin s"
proof -
  let ?c = "cache_next s"
  let ?s0 = "s\<lparr>cache_objs := (cache_objs s)
                   (?c := \<lparr>cache_cell = \<lparr>cell_i = i, cell_j = j\<rparr>, coins = [],
                          toString = coords_toString i j\<rparr>),
                 cache_next := Suc ?c\<rparr>"
  have eq: "createCache s i j n = (?c, createCache_loop ?s0 ?c 0 n)"
    by (simp add: createCache_def Let_def)
  have pre: "\<forall>r \<in> set (coins (cache_objs ?s0 ?c)). r < coin_next ?s0"
    by simp
  note P = createCache_loop_props [OF pre, of 0 n]
  show "fst (createCache s i j n) = cache_next s"
    by (simp add: eq)
  from P have "coin_data (createCache_loop ?s0 ?c 0 n) ?c =
      coin_data ?s0 ?c @ map (\<lambda>k'. \<lparr>cell = cache_cell (cache_objs ?s0 ?c), serial = k'\<rparr>) [0..n - 1]"
    by blast
  then show "coin_data (snd (createCache s i j n)) (cache_next s) =
     map (\<lambda>k. \<lparr>cell = \<lparr>cell_i = i, cell_j = j\<rparr>, serial = k\<rparr>) [0..n - 1]"
    by (simp add: eq coin_data_def)
  from P have "length (coins (cache_objs (createCache_loop ?s0 ?c 0 n) ?c)) =
       length (coins (cache_objs ?s0 ?c)) + nat (n - 0)"
    by blast
  then show "length (coins (cache_objs (snd (createCache s i j n)) (cache_next s))) = nat n"
    by (simp add: eq)
  from P have "toString (cache_objs (createCache_loop ?s0 ?c 0 n) ?c) = toString (cache_objs ?s0 ?c)"
    by blast
  then show "toString (cache_objs (snd (createCache s i j n)) (cache_next s)) = coords_toString i j"
    by (simp add: eq)
  from P have "cache_cell (cache_objs (createCache_loop ?s0 ?c 0 n) ?c) = cache_cell (cache_objs ?s0 ?c)"
    by blast
  then show "cache_cell (cache_objs (snd (createCache s i j n)) (cache_next s)) = \<lparr>cell_i = i, cell_j = j\<rparr>"
    by (simp add: eq)
  from P have others: "\<forall>d. d \<noteq> ?c \<longrightarrow> cache_objs (createCache_loop ?s0 ?c 0 n) d = cache_objs ?s0 d"
    by blast
  show "cache_objs (snd (createCache s i j n)) d = cache_objs s d" if "d \<noteq> cache_next s"
    using others that by (simp add: eq)
  from P have old: "\<forall>r < coin_next ?s0. coin_objs (createCache_loop ?s0 ?c 0 n) r = coin_objs ?s0 r"
    by blast
  show "coin_objs (snd (createCache s i j n)) r = coin_objs s r" if "r < coin_next s"
    using old that by (simp add: eq)
  from P have "cache_next (createCache_loop ?s0 ?c 0 n) = cache_next ?s0"
    by blast
  then show "cache_next (snd (createCache s i j n)) = Suc (cache_next s)"
    by (simp add: eq)
  from P have "momentos (createCache_loop ?s0 ?c 0 n) = momentos ?s0"
    by blast
  then show "momentos (snd (createCache s i j n)) = momentos s"
    by (simp add: eq)
  from P have "locHistory (createCache_loop ?s0 ?c 0 n) = locHistory ?s0"
    by blast
  then show "locHistory (snd (createCache s i j n)) = locHistory s"
    by (simp add: eq)
  from P have "origin (createCache_loop ?s0 ?c 0 n) = origin ?s0"
    by blast
  then show "origin (snd (createCache s i j n)) = origin s"
    by (simp add: eq)
qed

text \<open>
  Claim C3. For a cell \<open>(i, j)\<close> without a memento entry, and \<^verbatim>\<open>luck\<close> at the cell's key not
  negative (it is specified to lie in \<open>[0, 1)\<close>): the callback hands a cache to the map
  exactly when \<^verbatim>\<open>luck\<close> at the key is below \<open>0.1\<close>, and then the cache holds
  \<open>\<lfloor>luck \<times> 30\<rfloor> + 1\<close> coins of that cell with the serials \<open>0, 1, ...\<close> in order; otherwise
  nothing is created. Count and coins are given by \<^verbatim>\<open>luck\<close> and the coordinates alone, not by
  the state, so generating again for the same cell gives the same count and serials. The
  source draws \<^verbatim>\<open>luck\<close> once and uses the value for both decisions; a second draw at the
  same key would return the same value.
\<close>

theorem C3_generate_without_memento:
  assumes "\<not> momentos_has s (coords_toString i j)"
    and "0 \<le> luck (coords_toString i j)"
  shows "(case showNearbyCaches_cell luck s \<lparr>cell_i = i, cell_j = j\<rparr> of
            Inl e \<Rightarrow> False
          | Inr (None, s') \<Rightarrow> \<not> luck (coords_toString i j) < 1 / 10 \<and> s' = s
          | Inr (Some cache, s') \<Rightarrow>
              luck (coords_toString i j) < 1 / 10 \<and>
              int (length (coins (cache_objs s' cache))) = \<lfloor>luck (coords_toString i j) * 30\<rfloor> + 1 \<and>
              coin_data s' cache =
                map (\<lambda>k. \<lparr>cell = \<lparr>cell_i = i, cell_j = j\<rparr>, serial = k\<rparr>)
                  [0..\<lfloor>luck (coords_toString i j) * 30\<rfloor>] \<and>
              map serial (coin_data s' cache) = [0..\<lfloor>luck (coords_toString i j) * 30\<rfloor>])"
proof (cases "luck (coords_toString i j) < 1 / 10")
  case False
  then show ?thesis
    by (simp add: showNearbyCaches_cell_def CACHE_SPAWN_PROBABILITY_def)
next
  case True
  let ?n = "\<lfloor>luck (coords_toString i j) * 30\<rfloor> + 1"
  have n: "0 \<le> \<lfloor>luck (coords_toString i j) * 30\<rfloor>"
    using assms(2) by simp
  have run: "showNearbyCaches_cell luck s \<lparr>cell_i = i, cell_j = j\<rparr> =
      Inr (Some (fst (createCache s i j ?n)), snd (createCache s i j ?n))"
    using True assms(1)
    by (simp add: showNearbyCaches_cell_def CACHE_SPAWN_PROBABILITY_def Let_def split_beta)
  have ser: "map (serial \<circ> (\<lambda>k. \<lparr>cell = \<lparr>cell_i = i, cell_j = j\<rparr>, serial = k\<rparr>)) ks = ks" for ks
    by (induction ks) simp_all
  show ?thesis
    unfolding run using True n
    by (simp add: createCache_props ser)
qed

theorem C3_generate_without_memento_witness:
  "\<not> momentos_has init_state (coords_toString 0 0) \<and>
   0 \<le> luck_example (coords_toString 0 0) \<and>
   (case showNearbyCaches_cell luck_example init_state \<lparr>cell_i = 0, cell_j = 0\<rparr> of
      Inl e \<Rightarrow> False
    | Inr (None, s') \<Rightarrow> False
    | Inr (Some cache, s') \<Rightarrow>
        length (coins (cache_objs s' cache)) = 2 \<and> map serial (coin_data s' cache) = [0, 1])"
proof -
  have h1: "\<not> momentos_has init_state (coords_toString 0 0)"
    by code_simp
  have v: "luck_example (coords_toString 0 0) = 1 / 20"
    by (simp add: key00 luck_example_def)
  have h2: "0 \<le> luck_example (coords_toString 0 0)"
    by (simp add: v)
  have u: "[0..1] = [0, 1::int]"
    by (simp add: upto.simps)
  show ?thesis
    using h1 h2
      C3_generate_without_memento
        [where luck = luck_example and s = init_state and i = 0 and j = 0, OF h1 h2]
    by (auto simp: v u split: sum.splits option.splits prod.splits)
qed

section \<open>Claims about the session\<close>

lemma showNearbyCaches_cell_cong:
  "luck (coords_toString (cell_i c) (cell_j c)) = luck' (coords_toString (cell_i c) (cell_j c)) \<Longrightarrow>
   showNearbyCaches_cell luck s c = showNearbyCaches_cell luck' s c"
  by (simp add: showNearbyCaches_cell_def)

lemma scenario_example:
  "(case showNearbyCaches_cell luck_example init_state \<lparr>cell_i = 0, cell_j = 0\<rparr> of
      Inl e \<Rightarrow> False
    | Inr (None, s1) \<Rightarrow> False
    | Inr (Some cache, s1) \<Rightarrow>
        coin_data s1 cache =
          [\<lparr>cell = \<lparr>cell_i = 0, cell_j = 0\<rparr>, serial = 0\<rparr>,
           \<lparr>cell = \<lparr>cell_i = 0, cell_j = 0\<rparr>, serial = 1\<rparr>] \<and>
        (case loadData (saveData (transfer s1 cache inventory (coins (cache_objs s1 cache) ! 0))
                          empty_storage) init_state of
           Inl e \<Rightarrow> False
         | Inr s3 \<Rightarrow>
             coin_data s3 inventory = [\<lparr>cell = \<lparr>cell_i = 0, cell_j = 0\<rparr>, serial = 0\<rparr>] \<and>
             (case showNearbyCaches_cell luck_example s3 \<lparr>cell_i = 0, cell_j = 0\<rparr> of
                Inl e \<Rightarrow> False
              | Inr (None, s4) \<Rightarrow> False
              | Inr (Some cache', s4) \<Rightarrow>
                  coin_data s4 cache' = [\<lparr>cell = \<lparr>cell_i = 0, cell_j = 0\<rparr>, serial = 1\<rparr>] \<and>
                  coin_data s4 inventory = [\<lparr>cell = \<lparr>cell_i = 0, cell_j = 0\<rparr>, serial = 0\<rparr>])))"
  by code_simp

text \<open>
  Claim C5. With \<^verbatim>\<open>luck("0,0") = 0.05\<close>, in a new session cell \<open>(0, 0)\<close> gets a cache with the
  two coins of serials \<open>0\<close> and \<open>1\<close>. After the transfer of the first of them (serial \<open>0\<close>) to
  the inventory, \<open>saveData\<close>, and \<open>loadData\<close> in a new session, the inventory holds the coin
  of serial \<open>0\<close> only, and the cache shown for cell \<open>(0, 0)\<close> holds the coin of serial \<open>1\<close> only.
\<close>

theorem C5_end_to_end:
  assumes "luck ''0,0'' = 1 / 20"
  shows "(case showNearbyCaches_cell luck init_state \<lparr>cell_i = 0, cell_j = 0\<rparr> of
      Inl e \<Rightarrow> False
    | Inr (None, s1) \<Rightarrow> False
    | Inr (Some cache, s1) \<Rightarrow>
        coin_data s1 cache =
          [\<lparr>cell = \<lparr>cell_i = 0, cell_j = 0\<rparr>, serial = 0\<rparr>,
           \<lparr>cell = \<lparr>cell_i = 0, cell_j = 0\<rparr>, serial = 1\<rparr>] \<and>
        (case loadData (saveData (transfer s1 cache inventory (coins (cache_objs s1 cache) ! 0))
                          empty_storage) init_state of
           Inl e \<Rightarrow> False
         | Inr s3 \<Rightarrow>
             coin_data s3 inventory = [\<lparr>cell = \<lparr>cell_i = 0, cell_j = 0\<rparr>, serial = 0\<rparr>] \<and>
             (case showNearbyCaches_cell luck s3 \<lparr>cell_i = 0, cell_j = 0\<rparr> of
                Inl e \<Rightarrow> False
              | Inr (None, s4) \<Rightarrow> False
              | Inr (Some cache', s4) \<Rightarrow>
                  coin_data s4 cache' = [\<lparr>cell = \<lparr>cell_i = 0, cell_j = 0\<rparr>, serial = 1\<rparr>] \<and>
                  coin_data s4 inventory = [\<lparr>cell = \<lparr>cell_i = 0, cell_j = 0\<rparr>, serial = 0\<rparr>])))"
proof -
  have eq: "showNearbyCaches_cell luck s \<lparr>cell_i = 0, cell_j = 0\<rparr> =
      showNearbyCaches_cell luck_example s \<lparr>cell_i = 0, cell_j = 0\<rparr>" for s
    by (rule showNearbyCaches_cell_cong) (simp add: key00 assms luck_example_def)
  show ?thesis
    unfolding eq by (rule scenario_example)
qed

theorem C5_end_to_end_witness:
  "luck_example ''0,0'' = 1 / 20 \<and>
   (case showNearbyCaches_cell luck_example init_state \<lparr>cell_i = 0, cell_j = 0\<rparr> of
      Inl e \<Rightarrow> False
    | Inr (None, s1) \<Rightarrow> False
    | Inr (Some cache, s1) \<Rightarrow>
        coin_data s1 cache =
          [\<lparr>cell = \<lparr>cell_i = 0, cell_j = 0\<rparr>, serial = 0\<rparr>,
           \<lparr>cell = \<lparr>cell_i = 0, cell_j = 0\<rparr>, serial = 1\<rparr>] \<and>
        (case loadData (saveData (transfer s1 cache inventory (coins (cache_objs s1 cache) ! 0))
                          empty_storage) init_state of
           Inl e \<Rightarrow> False
         | Inr s3 \<Rightarrow>
             coin_data s3 inventory = [\<lparr>cell = \<lparr>cell_i = 0, cell_j = 0\<rparr>, serial = 0\<rparr>] \<and>
             (case showNearbyCaches_cell luck_example s3 \<lparr>cell_i = 0, cell_j = 0\<rparr> of
                Inl e \<Rightarrow> False
              | Inr (None, s4) \<Rightarrow> False
              | Inr (Some cache', s4) \<Rightarrow>
                  coin_data s4 cache' = [\<lparr>cell = \<lparr>cell_i = 0, cell_j = 0\<rparr>, serial = 1\<rparr>] \<and>
                  coin_data s4 inventory = [\<lparr>cell = \<lparr>cell_i = 0, cell_j = 0\<rparr>, serial = 0\<rparr>])))"
proof -
  have h: "luck_example ''0,0'' = 1 / 20"
    by (simp add: luck_example_def)
  show ?thesis
    using h C5_end_to_end [where luck = luck_example, OF h] by (rule conjI)
qed

text \<open>
  Claim C6 says that the three items are restored independently. \<open>loadData\<close> returns at
  once when the item \<^verbatim>\<open>data\<close> is missing: with \<^verbatim>\<open>loc\<close> and \<^verbatim>\<open>hist\<close> present, position and
  trail keep their defaults. With \<^verbatim>\<open>data\<close> present (even empty) and \<^verbatim>\<open>hist\<close> missing, the
  position is restored.
\<close>

theorem C6_loadData_early_return:
  "loadData \<lparr>item_data = None, item_loc = Some (1, 2),
             item_hist = Some [[\<lparr>lat = 1, lng = 2\<rparr>]]\<rparr> init_state = Inr init_state \<and>
   origin init_state = OAKES_CLASSROOM \<and> locHistory init_state = [] \<and>
   (case loadData \<lparr>item_data = Some [], item_loc = Some (1, 2), item_hist = None\<rparr> init_state of
      Inl e \<Rightarrow> False
    | Inr s \<Rightarrow> origin s = \<lparr>lat = 1, lng = 2\<rparr> \<and> locHistory s = [])"
  by (simp add: loadData_def init_state_def createCache_def createCache_loop.simps
      empty_state_def momentos_get_def)

section \<open>Claims about the board\<close>

lemma getCell_known:
  "known_cells (snd (getCell b i j)) (coords_toString i j) = Some (fst (getCell b i j))"
  by (auto simp: getCell_def Let_def)

lemma getCell_first:
  assumes "coords_toString i j \<notin> dom (known_cells b)"
  shows "fst (getCell b i j) = cell_next b"
    and "cell_objs (snd (getCell b i j)) (cell_next b) = \<lparr>cell_i = i, cell_j = j\<rparr>"
    and "cell_next (snd (getCell b i j)) = Suc (cell_next b)"
  using assms by (simp_all add: getCell_def Let_def)

lemma getCell_cached:
  assumes "known_cells b (coords_toString i j) = Some r"
  shows "getCell b i j = (r, b)"
  using assms by (auto simp: getCell_def Let_def)

lemma getCell_keeps:
  assumes "known_cells b k = Some r"
  shows "known_cells (snd (getCell b i j)) k = Some r"
  using assms by (auto simp: getCell_def Let_def)

lemma getCell_calls_keeps:
  "known_cells b k = Some r \<Longrightarrow> known_cells (getCell_calls b ijs) k = Some r"
proof (induction ijs arbitrary: b)
  case Nil
  then show ?case by simp
next
  case (Cons ij ijs)
  obtain i j where ij: "ij = (i, j)" by (cases ij)
  show ?case
    unfolding ij getCell_calls.simps
    by (rule Cons.IH) (rule getCell_keeps [OF Cons.prems])
qed

lemma getCell_tile_width [simp]: "tile_width (snd (getCell b i j)) = tile_width b"
  by (simp add: getCell_def Let_def)

lemma getCell_calls_tile_width [simp]: "tile_width (getCell_calls b ijs) = tile_width b"
  by (induction b ijs rule: getCell_calls.induct) simp_all

lemma board_inv_createBoard: "board_inv createBoard"
  by (simp add: board_inv_def createBoard_def)

lemma board_inv_getCell:
  assumes "board_inv b"
  shows "board_inv (snd (getCell b i j))"
proof (cases "coords_toString i j \<in> dom (known_cells b)")
  case True
  then show ?thesis
    using assms by (simp add: getCell_def Let_def)
next
  case False
  show ?thesis
    unfolding board_inv_def
  proof (intro allI impI)
    fix k r
    assume kr: "known_cells (snd (getCell b i j)) k = Some r"
    show "r < cell_next (snd (getCell b i j)) \<and>
          k = coords_toString (cell_i (cell_objs (snd (getCell b i j)) r))
                (cell_j (cell_objs (snd (getCell b i j)) r))"
    proof (cases "k = coords_toString i j")
      case True
      with kr False show ?thesis
        by (simp add: getCell_def Let_def)
    next
      case neq: False
      with kr False have old: "known_cells b k = Some r"
        by (simp add: getCell_def Let_def)
      with assms have "r < cell_next b"
        and "k = coords_toString (cell_i (cell_objs b r)) (cell_j (cell_objs b r))"
        by (auto simp: board_inv_def)
      with False show ?thesis
        by (simp add: getCell_def Let_def)
    qed
  qed
qed

lemma board_inv_getCell_calls: "board_inv b \<Longrightarrow> board_inv (getCell_calls b ijs)"
  by (induction b ijs rule: getCell_calls.induct) (simp_all add: board_inv_getCell)

lemma getCell_coords:
  assumes "board_inv b"
  shows "cell_objs (snd (getCell b i j)) (fst (getCell b i j)) = \<lparr>cell_i = i, cell_j = j\<rparr>"
proof -
  let ?b = "snd (getCell b i j)" and ?r = "fst (getCell b i j)"
  have "board_inv ?b" by (rule board_inv_getCell [OF assms])
  then have "coords_toString i j = coords_toString (cell_i (cell_objs ?b ?r)) (cell_j (cell_objs ?b ?r))"
    using getCell_known [of b i j] by (auto simp: board_inv_def)
  then have "i = cell_i (cell_objs ?b ?r) \<and> j = cell_j (cell_objs ?b ?r)"
    by (rule coords_toString_inj)
  then show ?thesis by simp
qed

lemma TILE_DEGREES_value: "TILE_DEGREES = 7378697629483821 / 2 ^ 66"
  by code_simp

lemma floor_example_negative: "\<lfloor>double_div (round_double (- 0.00005)) TILE_DEGREES\<rfloor> = - 1"
  by code_simp

lemma floor_example_exact: "\<lfloor>double_div (round_double 0.0002) TILE_DEGREES\<rfloor> = 2"
  by code_simp

lemma floor_example_literal: "\<lfloor>double_div (round_double 0.0003) TILE_DEGREES\<rfloor> = 2"
  by code_simp

lemma floor_example_product: "\<lfloor>double_div (double_mul (- 13) TILE_DEGREES) TILE_DEGREES\<rfloor> = - 14"
  by code_simp

lemma getCellFromPoint_cell:
  "cell_objs (snd (getCellFromPoint (getCell_calls createBoard ijs) q))
      (fst (getCellFromPoint (getCell_calls createBoard ijs) q)) =
    \<lparr>cell_i = \<lfloor>double_div (lat q) TILE_DEGREES\<rfloor>, cell_j = \<lfloor>double_div (lng q) TILE_DEGREES\<rfloor>\<rparr>"
proof -
  let ?b = "getCell_calls createBoard ijs"
  have inv: "board_inv ?b"
    by (rule board_inv_getCell_calls [OF board_inv_createBoard])
  have w: "tile_width ?b = TILE_DEGREES"
    by (simp add: createBoard_def)
  show ?thesis
    unfolding getCellFromPoint_def Let_def w by (rule getCell_coords [OF inv])
qed

text \<open>
  Claim C7, as amended. On every board of a session, \<open>getCellFromPoint\<close> returns the cell
  whose indices are the floors of the double quotients of latitude and longitude by the
  tile width, the double \<^verbatim>\<open>1e-4\<close>. The floor is toward negative infinity: the index is at most
  the quotient and the quotient is below the index plus one, so a point whose quotient is
  exactly an integer \<open>k\<close> is in tile \<open>k\<close> (latitude \<^verbatim>\<open>0.0002\<close> has quotient \<open>2\<close> and index \<open>2\<close>), and
  latitude \<^verbatim>\<open>-0.00005\<close> gets index \<open>-1\<close>, not \<open>0\<close>.
\<close>

theorem C7_getCellFromPoint_floor:
  "(case getCellFromPoint (getCell_calls createBoard ijs) p of
      (r, b') \<Rightarrow>
        cell_objs b' r = \<lparr>cell_i = \<lfloor>double_div (lat p) TILE_DEGREES\<rfloor>,
                          cell_j = \<lfloor>double_div (lng p) TILE_DEGREES\<rfloor>\<rparr> \<and>
        of_int (cell_i (cell_objs b' r)) \<le> double_div (lat p) TILE_DEGREES \<and>
        double_div (lat p) TILE_DEGREES < of_int (cell_i (cell_objs b' r)) + 1 \<and>
        of_int (cell_j (cell_objs b' r)) \<le> double_div (lng p) TILE_DEGREES \<and>
        double_div (lng p) TILE_DEGREES < of_int (cell_j (cell_objs b' r)) + 1) \<and>
   (case getCellFromPoint (getCell_calls createBoard ijs)
           \<lparr>lat = round_double (- 0.00005), lng = y\<rparr> of
      (r, b') \<Rightarrow> cell_i (cell_objs b' r) = - 1) \<and>
   (case getCellFromPoint (getCell_calls createBoard ijs)
           \<lparr>lat = round_double 0.0002, lng = y\<rparr> of
      (r, b') \<Rightarrow> cell_i (cell_objs b' r) = 2) \<and>
   TILE_DEGREES = 7378697629483821 / 2 ^ 66"
proof -
  have general: "(case getCellFromPoint (getCell_calls createBoard ijs) p of
      (r, b') \<Rightarrow>
        cell_objs b' r = \<lparr>cell_i = \<lfloor>double_div (lat p) TILE_DEGREES\<rfloor>,
                          cell_j = \<lfloor>double_div (lng p) TILE_DEGREES\<rfloor>\<rparr> \<and>
        of_int (cell_i (cell_objs b' r)) \<le> double_div (lat p) TILE_DEGREES \<and>
        double_div (lat p) TILE_DEGREES < of_int (cell_i (cell_objs b' r)) + 1 \<and>
        of_int (cell_j (cell_objs b' r)) \<le> double_div (lng p) TILE_DEGREES \<and>
        double_div (lng p) TILE_DEGREES < of_int (cell_j (cell_objs b' r)) + 1)"
    by (simp add: split_beta getCellFromPoint_cell)
  have negative: "(case getCellFromPoint (getCell_calls createBoard ijs)
           \<lparr>lat = round_double (- 0.00005), lng = y\<rparr> of
      (r, b') \<Rightarrow> cell_i (cell_objs b' r) = - 1)"
    by (simp only: split_beta getCellFromPoint_cell latlng.select_convs Cell.select_convs
        floor_example_negative)
  have exact: "(case getCellFromPoint (getCell_calls createBoard ijs)
           \<lparr>lat = round_double 0.0002, lng = y\<rparr> of
      (r, b') \<Rightarrow> cell_i (cell_objs b' r) = 2)"
    by (simp only: split_beta getCellFromPoint_cell latlng.select_convs Cell.select_convs
        floor_example_exact)
  from general negative exact TILE_DEGREES_value show ?thesis
    by (intro conjI)
qed

text \<open>
  Claim C7 as stated puts a point on a tile boundary into the tile that starts there. The
  lower bound of tile \<open>3\<close> is \<^verbatim>\<open>0.0003\<close>, and that of tile \<open>-13\<close> is \<^verbatim>\<open>-13 * TILE_DEGREES\<close> as the
  source computes marker positions; the double quotients are just below \<open>3\<close> and \<open>-13\<close>, and
  the points get the indices \<open>2\<close> and \<open>-14\<close>.
\<close>

theorem C7_getCellFromPoint_counterexample:
  "cell_i (cell_objs (snd (getCellFromPoint createBoard \<lparr>lat = round_double 0.0003, lng = 0\<rparr>))
      (fst (getCellFromPoint createBoard \<lparr>lat = round_double 0.0003, lng = 0\<rparr>))) = 2 \<and>
   cell_i (cell_objs
      (snd (getCellFromPoint createBoard \<lparr>lat = double_mul (- 13) TILE_DEGREES, lng = 0\<rparr>))
      (fst (getCellFromPoint createBoard \<lparr>lat = double_mul (- 13) TILE_DEGREES, lng = 0\<rparr>))) = - 14"
proof -
  have b: "getCell_calls createBoard [] = createBoard"
    by simp
  show ?thesis
    using getCellFromPoint_cell [of "[]" "\<lparr>lat = round_double 0.0003, lng = 0\<rparr>"]
      getCellFromPoint_cell [of "[]" "\<lparr>lat = double_mul (- 13) TILE_DEGREES, lng = 0\<rparr>"]
    by (simp only: b latlng.select_convs Cell.select_convs floor_example_literal
        floor_example_product simp_thms)
qed

lemma getCell_dom:
  "dom (known_cells (snd (getCell b i j))) = insert (coords_toString i j) (dom (known_cells b))"
  by (auto simp: getCell_def Let_def)

lemma getCell_calls_dom:
  "dom (known_cells (getCell_calls b pre)) =
     dom (known_cells b) \<union> (\<lambda>(i, j). coords_toString i j) ` set pre"
  by (induction b pre rule: getCell_calls.induct) (auto simp: getCell_dom)

lemma session_board_dom:
  "coords_toString i j \<in> dom (known_cells (getCell_calls createBoard pre)) \<longleftrightarrow> (i, j) \<in> set pre"
proof -
  have "dom (known_cells createBoard) = {}"
    by (simp add: createBoard_def)
  then have "coords_toString i j \<in> dom (known_cells (getCell_calls createBoard pre)) \<longleftrightarrow>
      coords_toString i j \<in> (\<lambda>(i, j). coords_toString i j) ` set pre"
    by (simp add: getCell_calls_dom)
  also have "\<dots> \<longleftrightarrow> (i, j) \<in> set pre"
    by (auto dest: coords_toString_inj)
  finally show ?thesis .
qed

lemma board_inv_key:
  "board_inv b \<Longrightarrow> known_cells b k = Some r \<Longrightarrow>
   k = coords_toString (cell_i (cell_objs b r)) (cell_j (cell_objs b r))"
  by (simp add: board_inv_def)

lemma board_inv_session: "board_inv (getCell_calls createBoard pre)"
  by (rule board_inv_getCell_calls [OF board_inv_createBoard])

text \<open>
  Claim C8. On a board of a session, after the requests \<open>pre\<close>, \<open>getCell\<close> on \<open>(i, j)\<close> returns
  a cell object with the coordinates \<open>(i, j)\<close>, cached under the key of \<open>(i, j)\<close>. If \<open>(i, j)\<close> was
  requested before, the board is unchanged; if this is the first request, the reference is
  a newly allocated object, none of the cached ones. The same call on the resulting board
  returns the same reference and leaves the board as it is, and so does the call after any
  further requests \<open>ijs\<close>, where the object still has the coordinates \<open>(i, j)\<close>. A later request
  returns this object exactly when it is for the coordinates \<open>(i, j)\<close>.
\<close>

theorem C8_getCell_canonical:
  "(case getCell (getCell_calls createBoard pre) i j of
      (r, b') \<Rightarrow>
        cell_objs b' r = \<lparr>cell_i = i, cell_j = j\<rparr> \<and>
        known_cells b' (coords_toString i j) = Some r \<and>
        (if (i, j) \<in> set pre then b' = getCell_calls createBoard pre
         else r = cell_next (getCell_calls createBoard pre) \<and> cell_next b' = Suc r \<and>
              r \<notin> ran (known_cells (getCell_calls createBoard pre))) \<and>
        getCell b' i j = (r, b') \<and>
        (case getCell (getCell_calls b' ijs) i j of
           (r', b'') \<Rightarrow>
             r' = r \<and> b'' = getCell_calls b' ijs \<and>
             cell_objs b'' r = \<lparr>cell_i = i, cell_j = j\<rparr>) \<and>
        (fst (getCell (getCell_calls b' ijs) i' j') = r \<longleftrightarrow> i' = i \<and> j' = j))"
proof -
  let ?b = "getCell_calls createBoard pre"
  obtain r b' where g: "getCell ?b i j = (r, b')" by (cases "getCell ?b i j")
  have inv: "board_inv ?b" by (rule board_inv_session)
  have b': "b' = getCell_calls createBoard (pre @ [(i, j)])"
  proof -
    have "getCell_calls c (xs @ [(i, j)]) = snd (getCell (getCell_calls c xs) i j)" for c xs
      by (induction c xs rule: getCell_calls.induct) simp_all
    then show ?thesis by (simp add: g)
  qed
  have coords: "cell_objs b' r = \<lparr>cell_i = i, cell_j = j\<rparr>"
    using getCell_coords [OF inv, of i j] by (simp add: g)
  have known: "known_cells b' (coords_toString i j) = Some r"
    using getCell_known [of ?b i j] by (simp add: g)
  have create: "if (i, j) \<in> set pre then b' = ?b
      else r = cell_next ?b \<and> cell_next b' = Suc r \<and> r \<notin> ran (known_cells ?b)"
  proof (cases "(i, j) \<in> set pre")
    case True
    then obtain r0 where "known_cells ?b (coords_toString i j) = Some r0"
      using session_board_dom [of i j pre] by auto
    then have "getCell ?b i j = (r0, ?b)" by (rule getCell_cached)
    with True show ?thesis by (simp add: g)
  next
    case False
    then have new: "coords_toString i j \<notin> dom (known_cells ?b)"
      by (simp add: session_board_dom)
    have "r = cell_next ?b" and "cell_next b' = Suc (cell_next ?b)"
      using getCell_first [OF new] by (simp_all add: g)
    moreover have "cell_next ?b \<notin> ran (known_cells ?b)"
      using inv by (auto simp: board_inv_def ran_def)
    ultimately show ?thesis using False by simp
  qed
  have again: "getCell b' i j = (r, b')"
    by (rule getCell_cached [OF known])
  let ?c = "getCell_calls b' ijs"
  have c: "?c = getCell_calls createBoard ((pre @ [(i, j)]) @ ijs)"
  proof -
    have "getCell_calls d (xs @ ys) = getCell_calls (getCell_calls d xs) ys" for d xs ys
      by (induction d xs rule: getCell_calls.induct) simp_all
    then show ?thesis by (simp only: b')
  qed
  have inv_c: "board_inv ?c"
    unfolding c by (rule board_inv_session)
  have known_c: "known_cells ?c (coords_toString i j) = Some r"
    by (rule getCell_calls_keeps [OF known])
  have later: "getCell ?c i j = (r, ?c)"
    by (rule getCell_cached [OF known_c])
  have coords_c: "cell_objs ?c r = \<lparr>cell_i = i, cell_j = j\<rparr>"
    using getCell_coords [OF inv_c, of i j] by (simp add: later)
  have other: "fst (getCell ?c i' j') = r \<longleftrightarrow> i' = i \<and> j' = j"
  proof
    assume same: "fst (getCell ?c i' j') = r"
    let ?d = "snd (getCell ?c i' j')"
    have inv_d: "board_inv ?d" by (rule board_inv_getCell [OF inv_c])
    have obj: "cell_objs ?d r = \<lparr>cell_i = i', cell_j = j'\<rparr>"
      using getCell_coords [OF inv_c, of i' j'] by (simp add: same)
    have "known_cells ?d (coords_toString i j) = Some r"
      by (rule getCell_keeps [OF known_c])
    from board_inv_key [OF inv_d this] have "coords_toString i j = coords_toString i' j'"
      by (simp add: obj)
    then show "i' = i \<and> j' = j"
      by (auto dest: coords_toString_inj)
  next
    assume "i' = i \<and> j' = j"
    then show "fst (getCell ?c i' j') = r" by (simp add: later)
  qed
  show ?thesis
    unfolding g prod.case later
    using coords known create again coords_c other by simp
qed

theorem C8_getCell_canonical_witness:
  "(3 :: int, - 4 :: int) \<notin> set [(0, 0), (1, 2)] \<and>
   fst (getCell (getCell_calls createBoard [(0, 0), (1, 2)]) 3 (- 4)) = 2 \<and>
   cell_objs (snd (getCell (getCell_calls createBoard [(0, 0), (1, 2)]) 3 (- 4))) 2 =
     \<lparr>cell_i = 3, cell_j = - 4\<rparr> \<and>
   fst (getCell (getCell_calls (snd (getCell (getCell_calls createBoard [(0, 0), (1, 2)]) 3 (- 4)))
          [(0, 0), (3, - 4), (5, 5)]) 3 (- 4)) = 2 \<and>
   fst (getCell (getCell_calls (snd (getCell (getCell_calls createBoard [(0, 0), (1, 2)]) 3 (- 4)))
          [(0, 0), (3, - 4), (5, 5)]) 5 5) \<noteq> 2 \<and>
   snd (getCell (getCell_calls createBoard [(0, 0), (1, 2)]) 1 2) =
     getCell_calls createBoard [(0, 0), (1, 2)]"
proof -
  have h: "(3 :: int, - 4 :: int) \<notin> set [(0, 0), (1, 2)]"
    by simp
  have n: "cell_next (getCell_calls createBoard [(0, 0), (1, 2)]) = 2"
    by (simp add: getCell_def createBoard_def Let_def coords_toString_def show_int_def
        show_nat.simps digit_of_def)
  show ?thesis
    using h n
      C8_getCell_canonical
        [where pre = "[(0, 0), (1, 2)]" and i = 3 and j = "- 4"
          and ijs = "[(0, 0), (3, - 4), (5, 5)]" and i' = 5 and j' = 5]
      C8_getCell_canonical
        [where pre = "[(0, 0), (1, 2)]" and i = 1 and j = 2]
    by (auto simp: split_beta)
qed

section \<open>Claims about the movement trail\<close>

text \<open>
  Claim C9, as amended. On an empty trail \<open>updateLocationHistory\<close> creates a first polyline
  of the one position. On a trail whose last polyline ends in a point \<open>p\<close>, the position is
  appended to that polyline when its distance to \<open>p\<close> is below \<open>20\<close>, and a new polyline of
  the one position is started otherwise, that is, from distance \<open>20\<close> on.
\<close>

theorem C9_updateLocationHistory_segments:
  "updateLocationHistory calculateDistance (s\<lparr>locHistory := []\<rparr>) =
     Inr (s\<lparr>locHistory := [[origin s]]\<rparr>) \<and>
   updateLocationHistory calculateDistance (s\<lparr>locHistory := hs @ [ps @ [p]]\<rparr>) =
     Inr (s\<lparr>locHistory :=
            (if calculateDistance (origin s) p < 20 then hs @ [ps @ [p, origin s]]
             else hs @ [ps @ [p], [origin s]])\<rparr>)"
  by (simp add: updateLocationHistory_def HISTORY_UPDATE_DISTANCE_def Let_def)

text \<open>
  Claim C9 as stated starts a new polyline only for a distance above \<open>20\<close>. At distance \<open>20\<close>,
  which does not exceed the threshold, the source starts a new polyline.
\<close>

theorem C9_updateLocationHistory_counterexample:
  "\<not> HISTORY_UPDATE_DISTANCE < lat_gap \<lparr>lat = 20, lng = 0\<rparr> \<lparr>lat = 0, lng = 0\<rparr> \<and>
   updateLocationHistory lat_gap
     (init_state\<lparr>locHistory := [[\<lparr>lat = 0, lng = 0\<rparr>]], origin := \<lparr>lat = 20, lng = 0\<rparr>\<rparr>) =
   Inr (init_state\<lparr>locHistory := [[\<lparr>lat = 0, lng = 0\<rparr>], [\<lparr>lat = 20, lng = 0\<rparr>]],
                   origin := \<lparr>lat = 20, lng = 0\<rparr>\<rparr>)"
  by (simp add: updateLocationHistory_def HISTORY_UPDATE_DISTANCE_def lat_gap_def Let_def)

end
